theory Spec2Isabelle
  imports Complex_Main
begin

section \<open>Quantization specifications\<close>

text \<open>
  The values that \<^verbatim>\<open>quantizer.py\<close> passes to the constructor of
  \<^verbatim>\<open>QuantizationSpec\<close>: a tensor dtype, the representable range, the scheme,
  the static/dynamic switch and the observer constructor. The observer constructor
  \<^verbatim>\<open>HistogramObserver.with_args(eps=2**-12)\<close> is the histogram observer together
  with its one bound keyword argument; \<^verbatim>\<open>2**-12\<close> is exactly \<open>1 / 4096\<close>.
\<close>

datatype torch_dtype = uint8 | int8 | int16 | int32 | float32

datatype torch_qscheme =
  per_tensor_affine | per_tensor_symmetric | per_channel_affine | per_channel_symmetric

datatype observer_ctr =
  HistogramObserver
| HistogramObserver_with_args rat
| MinMaxObserver

record QuantizationSpec =
  dtype :: torch_dtype
  quant_min :: int
  quant_max :: int
  qscheme :: torch_qscheme
  is_dynamic :: bool
  observer_or_fake_quant_ctr :: observer_ctr

text \<open>
  A pattern may hand over a spec of its own for an anchor (a
  \<^verbatim>\<open>DerivedQuantizationSpec\<close>, whose parameters are computed from other tensors).
  The annotator never looks inside such a spec, so its type is left opaque.
\<close>

typedecl DerivedQuantizationSpec

datatype QuantizationSpecBase =
  Plain QuantizationSpec
| Derived DerivedQuantizationSpec

text \<open>
  Modelled from the spec: the class \<^verbatim>\<open>QuantizationConfig\<close> is declared outside
  \<^verbatim>\<open>quantizer.py\<close>. It bundles four optional specs, in the order input activation,
  output activation, weight, bias; \<^verbatim>\<open>quantizer.py\<close> builds it positionally and
  reads the four attributes by these names.
\<close>

record QuantizationConfig =
  input_activation :: "QuantizationSpec option"
  output_activation :: "QuantizationSpec option"
  weight :: "QuantizationSpec option"
  bias :: "QuantizationSpec option"

definition act_qspec :: QuantizationSpec where
  "act_qspec =
     \<lparr>dtype = uint8, quant_min = 0, quant_max = 255, qscheme = per_tensor_affine,
      is_dynamic = False,
      observer_or_fake_quant_ctr = HistogramObserver_with_args (1 / 2 ^ 12)\<rparr>"

definition wgt_qspec :: QuantizationSpec where
  "wgt_qspec =
     \<lparr>dtype = uint8, quant_min = 0, quant_max = 255, qscheme = per_tensor_affine,
      is_dynamic = False,
      observer_or_fake_quant_ctr = MinMaxObserver\<rparr>"

definition bias_qspec :: "QuantizationSpec option" where
  "bias_qspec = None"

text \<open>The module constant \<^verbatim>\<open>_default_qconfig\<close>.\<close>

definition default_qconfig :: QuantizationConfig where
  "default_qconfig =
     \<lparr>input_activation = Some act_qspec, output_activation = Some act_qspec,
      weight = Some wgt_qspec, bias = None\<rparr>"

section \<open>Graphs, annotations, partitions and anchors\<close>

text \<open>
  A node is an opaque handle. An argument of a node is another node (its producer) or an
  immediate value. The graph module carries the node list, and per node the operator kind,
  the ordered argument list and the metadata dictionary. The annotator reads and writes one
  metadata key only, \<^verbatim>\<open>"quantization_annotation"\<close>; that key is the field
  \<open>quantization_annotation\<close> (absent key = \<open>None\<close>), and all other keys are kept
  in \<open>meta_other\<close>. Every node owns its annotation object: no two nodes share one.
\<close>

type_synonym node = nat

datatype arg = Arg_node node | Arg_const int

datatype error = IndexError

text \<open>
  Modelled from the spec: the class \<^verbatim>\<open>QuantizationAnnotation\<close> is declared outside
  \<^verbatim>\<open>quantizer.py\<close>. It is a per-node record of an output spec (or None), a mapping
  from each input-producing edge to its input spec, and an "already annotated" flag; a
  field the constructor call does not mention starts as None, respectively as the empty
  mapping. A key of the mapping may be bound to None, which differs from a missing key.
  The field \<^verbatim>\<open>_annotated\<close> is written \<open>annotated\<close>. Both constructor calls in
  \<^verbatim>\<open>quantizer.py\<close> pass \<^verbatim>\<open>_annotated=True\<close>.
\<close>

record QuantizationAnnotation =
  input_qspec_map :: "arg \<rightharpoonup> QuantizationSpecBase option"
  output_qspec :: "QuantizationSpecBase option"
  annotated :: bool

record GraphModule =
  nodes :: "node list"
  target :: "node \<Rightarrow> string"
  args :: "node \<Rightarrow> arg list"
  quantization_annotation :: "node \<rightharpoonup> QuantizationAnnotation"
  meta_other :: "node \<Rightarrow> string \<rightharpoonup> string"

text \<open>
  Modelled from the spec: the partition type is declared outside \<^verbatim>\<open>quantizer.py\<close>.
  A partition is the group of nodes matched against one pattern, with its designated
  output node.
\<close>

record partition =
  part_nodes :: "node list"
  part_output :: node

text \<open>
  An anchor of the inputs, weights or biases bucket is a tuple \<^verbatim>\<open>(node, idx, *rest)\<close>,
  an anchor of the output bucket a tuple \<^verbatim>\<open>(node, *rest)\<close>; the starred remainder is
  kept as a list, whose head (when there is one) is the pattern's custom spec.
\<close>

type_synonym input_anchor = "node \<times> int \<times> QuantizationSpecBase option list"
type_synonym output_anchor = "node \<times> QuantizationSpecBase option list"

record PartitionAnchors =
  inputs :: "input_anchor list"
  weights :: "input_anchor list"
  biases :: "input_anchor list"
  "output" :: "output_anchor list"

text \<open>
  The pattern catalog and the partition finder live outside \<^verbatim>\<open>quantizer.py\<close>; the
  annotator is parametrised by them. \<open>get_anchors\<close> yields \<open>None\<close> where the
  pattern returns a null result.
\<close>

record 'p collaborators =
  find_sequential_partitions_aten :: "GraphModule \<Rightarrow> string list \<Rightarrow> partition list"
  partition_types :: "'p \<Rightarrow> string list"
  get_anchors :: "'p \<Rightarrow> GraphModule \<Rightarrow> partition \<Rightarrow> PartitionAnchors option"

record 'p CadenceAtenQuantizer =
  pattern :: 'p
  quantization_config :: QuantizationConfig

section \<open>Helpers of the annotation policy\<close>

text \<open>Python indexing of a sequence: a negative index counts from the end, an index
  out of range raises \<^verbatim>\<open>IndexError\<close>.\<close>

definition getitem :: "'a list \<Rightarrow> int \<Rightarrow> error + 'a" where
  "getitem xs idx =
     (if 0 \<le> idx \<and> idx < int (length xs) then Inr (xs ! nat idx)
      else if idx < 0 \<and> - int (length xs) \<le> idx then Inr (xs ! nat (int (length xs) + idx))
      else Inl IndexError)"

text \<open>\<^verbatim>\<open>custom_spec[0] if custom_spec else spec\<close>\<close>

definition choose_spec ::
  "QuantizationSpecBase option list \<Rightarrow> QuantizationSpecBase option \<Rightarrow> QuantizationSpecBase option"
where
  "choose_spec custom_spec spec = (case custom_spec of [] \<Rightarrow> spec | c # _ \<Rightarrow> c)"

text \<open>
  Modelled from the spec: \<^verbatim>\<open>is_annotated\<close> is imported from the utilities module,
  which is not part of \<^verbatim>\<open>quantizer.py\<close>. A partition is rejected when any anchor node
  already carries an annotation; the annotation record has an "already annotated" flag,
  and a node counts as annotated when it holds an entry whose flag is set.
\<close>

definition node_annotated :: "GraphModule \<Rightarrow> node \<Rightarrow> bool" where
  "node_annotated model n =
     (case quantization_annotation model n of None \<Rightarrow> False | Some a \<Rightarrow> annotated a)"

definition is_annotated :: "GraphModule \<Rightarrow> node list \<Rightarrow> bool" where
  "is_annotated model ns = list_ex (node_annotated model) ns"

text \<open>
  Modelled from the spec: \<^verbatim>\<open>no_outside_users\<close> is imported from the utilities module,
  which is not part of \<^verbatim>\<open>quantizer.py\<close>. A partition fails the check when a node
  strictly internal to it (not its designated output) has a consumer outside the
  partition. The consumers of a node are the graph's nodes that take it as an argument.
\<close>

definition users :: "GraphModule \<Rightarrow> node \<Rightarrow> node list" where
  "users model n = filter (\<lambda>m. Arg_node n \<in> set (args model m)) (nodes model)"

definition no_outside_users :: "GraphModule \<Rightarrow> partition \<Rightarrow> bool" where
  "no_outside_users model fused_partition =
     list_all
       (\<lambda>n. n = part_output fused_partition \<or>
            list_all (\<lambda>m. m \<in> set (part_nodes fused_partition)) (users model n))
       (part_nodes fused_partition)"

section \<open>The annotator\<close>

text \<open>The loop over \<^verbatim>\<open>anchors.output\<close>: each output anchor gets a fresh annotation.\<close>

fun annotate_outputs ::
  "output_anchor list \<Rightarrow> QuantizationSpecBase option \<Rightarrow> GraphModule \<Rightarrow> GraphModule"
where
  "annotate_outputs [] output_act_qspec model = model"
| "annotate_outputs ((out, custom_spec) # rest) output_act_qspec model =
     annotate_outputs rest output_act_qspec
       (model\<lparr>quantization_annotation := (quantization_annotation model)
          (out \<mapsto> \<lparr>input_qspec_map = Map.empty,
                    output_qspec = choose_spec custom_spec output_act_qspec,
                    annotated = True\<rparr>)\<rparr>)"

text \<open>
  The local function \<^verbatim>\<open>annotate_inputs\<close>: the node's entry is fetched (a fresh one
  with the flag set when the node has none), the edge \<^verbatim>\<open>node.args[idx]\<close> is bound in
  its input map, and the entry is stored back.
\<close>

fun annotate_inputs ::
  "input_anchor list \<Rightarrow> QuantizationSpecBase option \<Rightarrow> GraphModule \<Rightarrow> error + GraphModule"
where
  "annotate_inputs [] spec model = Inr model"
| "annotate_inputs ((n, idx, custom_spec) # rest) spec model =
     (let annotation =
            (case quantization_annotation model n of
               None \<Rightarrow> \<lparr>input_qspec_map = Map.empty, output_qspec = None, annotated = True\<rparr>
             | Some a \<Rightarrow> a)
      in case getitem (args model n) idx of
           Inl e \<Rightarrow> Inl e
         | Inr edge \<Rightarrow>
             annotate_inputs rest spec
               (model\<lparr>quantization_annotation := (quantization_annotation model)
                  (n \<mapsto> annotation\<lparr>input_qspec_map :=
                         (input_qspec_map annotation)(edge \<mapsto> choose_spec custom_spec spec)\<rparr>)\<rparr>))"

definition anchor_nodes :: "PartitionAnchors \<Rightarrow> node list" where
  "anchor_nodes anchors =
     map fst (inputs anchors @ weights anchors @ biases anchors) @ map fst (output anchors)"

text \<open>The spec assignment of an accepted partition: outputs, then inputs, weights, biases.\<close>

definition assign_specs ::
  "QuantizationConfig \<Rightarrow> PartitionAnchors \<Rightarrow> GraphModule \<Rightarrow> error + GraphModule"
where
  "assign_specs cfg anchors model =
     (case annotate_inputs (inputs anchors) (map_option Plain (input_activation cfg))
             (annotate_outputs (output anchors) (map_option Plain (output_activation cfg)) model) of
        Inl e \<Rightarrow> Inl e
      | Inr m1 \<Rightarrow>
          (case annotate_inputs (weights anchors) (map_option Plain (weight cfg)) m1 of
             Inl e \<Rightarrow> Inl e
           | Inr m2 \<Rightarrow> annotate_inputs (biases anchors) (map_option Plain (bias cfg)) m2))"

text \<open>One turn of the loop over the fused partitions.\<close>

definition annotate_partition ::
  "'p collaborators \<Rightarrow> 'p CadenceAtenQuantizer \<Rightarrow> partition \<Rightarrow> GraphModule \<Rightarrow> error + GraphModule"
where
  "annotate_partition env self fused_partition model =
     (if \<not> no_outside_users model fused_partition then Inr model
      else case get_anchors env (pattern self) model fused_partition of
             None \<Rightarrow> Inr model
           | Some anchors \<Rightarrow>
               if is_annotated model (anchor_nodes anchors) then Inr model
               else assign_specs (quantization_config self) anchors model)"

fun annotate_partitions ::
  "'p collaborators \<Rightarrow> 'p CadenceAtenQuantizer \<Rightarrow> partition list \<Rightarrow> GraphModule \<Rightarrow> error + GraphModule"
where
  "annotate_partitions env self [] model = Inr model"
| "annotate_partitions env self (fused_partition # rest) model =
     (case annotate_partition env self fused_partition model of
        Inl e \<Rightarrow> Inl e
      | Inr model' \<Rightarrow> annotate_partitions env self rest model')"

definition annotate ::
  "'p collaborators \<Rightarrow> 'p CadenceAtenQuantizer \<Rightarrow> GraphModule \<Rightarrow> error + GraphModule"
where
  "annotate env self model =
     annotate_partitions env self
       (find_sequential_partitions_aten env model (partition_types env (pattern self))) model"

text \<open>\<^verbatim>\<open>validate\<close> has the body \<^verbatim>\<open>pass\<close>: it returns normally and leaves the model
  as it is. \<^verbatim>\<open>get_supported_operators\<close> returns the empty list.\<close>

type_synonym OperatorConfig = string

definition validate :: "'p CadenceAtenQuantizer \<Rightarrow> GraphModule \<Rightarrow> error + GraphModule" where
  "validate self model = Inr model"

definition get_supported_operators :: "OperatorConfig list" where
  "get_supported_operators = []"

section \<open>The default quantizer list and the composed quantizer\<close>

datatype QuantizationPattern =
  AddmmPattern | BmmPattern | Conv1dPattern | Conv2dPattern | LayerNormPattern
| LinearPattern | MatmulPattern | ReluPattern0 | ReluPattern1

definition get_cadence_default_quantizer_list_with_config ::
  "QuantizationConfig \<Rightarrow> QuantizationPattern CadenceAtenQuantizer list"
where
  "get_cadence_default_quantizer_list_with_config cfg =
     [\<lparr>pattern = AddmmPattern, quantization_config = cfg\<rparr>,
      \<lparr>pattern = BmmPattern, quantization_config = cfg\<rparr>,
      \<lparr>pattern = Conv1dPattern, quantization_config = cfg\<rparr>,
      \<lparr>pattern = Conv2dPattern, quantization_config = cfg\<rparr>,
      \<lparr>pattern = LayerNormPattern, quantization_config = cfg\<rparr>,
      \<lparr>pattern = LinearPattern, quantization_config = cfg\<rparr>,
      \<lparr>pattern = MatmulPattern, quantization_config = cfg\<rparr>,
      \<lparr>pattern = ReluPattern0, quantization_config = cfg\<rparr>,
      \<lparr>pattern = ReluPattern1, quantization_config = cfg\<rparr>]"

record 'p CadenceQuantizer =
  quantizers :: "'p CadenceAtenQuantizer list"

definition CadenceQuantizer_init :: "'p CadenceAtenQuantizer list \<Rightarrow> 'p CadenceQuantizer" where
  "CadenceQuantizer_init qs = \<lparr>quantizers = qs\<rparr>"

definition CadenceDefaultQuantizer_init ::
  "QuantizationConfig option \<Rightarrow> QuantizationPattern CadenceQuantizer"
where
  "CadenceDefaultQuantizer_init qconfig =
     CadenceQuantizer_init
       (get_cadence_default_quantizer_list_with_config
          (case qconfig of None \<Rightarrow> default_qconfig | Some c \<Rightarrow> c))"

text \<open>
  Modelled from the spec: the base class \<^verbatim>\<open>ComposableQuantizer\<close> is a library class
  outside \<^verbatim>\<open>quantizer.py\<close>. The aggregator runs its ordered list of annotators
  against one graph, sequentially, each on the graph the previous one left.
\<close>

fun annotate_all ::
  "'p collaborators \<Rightarrow> 'p CadenceAtenQuantizer list \<Rightarrow> GraphModule \<Rightarrow> error + GraphModule"
where
  "annotate_all env [] model = Inr model"
| "annotate_all env (q # qs) model =
     (case annotate env q model of
        Inl e \<Rightarrow> Inl e
      | Inr model' \<Rightarrow> annotate_all env qs model')"

definition CadenceQuantizer_annotate ::
  "'p collaborators \<Rightarrow> 'p CadenceQuantizer \<Rightarrow> GraphModule \<Rightarrow> error + GraphModule"
where
  "CadenceQuantizer_annotate env self model = annotate_all env (quantizers self) model"

section \<open>Predicates used to state the properties\<close>

text \<open>The graph structure: node list, operator kinds, argument wiring and every metadata
  key other than the annotation key.\<close>

definition same_structure :: "GraphModule \<Rightarrow> GraphModule \<Rightarrow> bool" where
  "same_structure model model' \<longleftrightarrow>
     nodes model' = nodes model \<and> target model' = target model \<and>
     args model' = args model \<and> meta_other model' = meta_other model"

text \<open>An index that Python accepts for a sequence of this length.\<close>

definition index_ok :: "'a list \<Rightarrow> int \<Rightarrow> bool" where
  "index_ok xs idx \<longleftrightarrow> - int (length xs) \<le> idx \<and> idx < int (length xs)"

definition anchors_in_range :: "GraphModule \<Rightarrow> PartitionAnchors \<Rightarrow> bool" where
  "anchors_in_range model anchors =
     list_all (\<lambda>(n, idx, custom_spec). index_ok (args model n) idx)
       (inputs anchors @ weights anchors @ biases anchors)"

text \<open>A pattern whose anchors always name an existing argument position.\<close>

definition indices_in_range :: "'p collaborators \<Rightarrow> 'p \<Rightarrow> bool" where
  "indices_in_range env p \<longleftrightarrow>
     (\<forall>model fp anchors. get_anchors env p model fp = Some anchors \<longrightarrow>
        anchors_in_range model anchors)"

text \<open>A node that holds no entry, or an entry whose flag is set.\<close>

definition entry_flagged :: "GraphModule \<Rightarrow> node \<Rightarrow> bool" where
  "entry_flagged model n =
     (case quantization_annotation model n of None \<Rightarrow> True | Some a \<Rightarrow> annotated a)"

text \<open>
  What each input, weight and bias anchor asks for: the node, the argument position and the
  spec chosen for it (the anchor's custom spec, else the bucket's spec of the
  configuration), in the order in which the annotator writes them.
\<close>

definition bucket_writes ::
  "QuantizationSpecBase option \<Rightarrow> input_anchor list \<Rightarrow> (node \<times> int \<times> QuantizationSpecBase option) list"
where
  "bucket_writes spec xs = map (\<lambda>(n, idx, custom_spec). (n, idx, choose_spec custom_spec spec)) xs"

definition chosen_specs ::
  "QuantizationConfig \<Rightarrow> PartitionAnchors \<Rightarrow> (node \<times> int \<times> QuantizationSpecBase option) list"
where
  "chosen_specs cfg anchors =
     bucket_writes (map_option Plain (input_activation cfg)) (inputs anchors) @
     bucket_writes (map_option Plain (weight cfg)) (weights anchors) @
     bucket_writes (map_option Plain (bias cfg)) (biases anchors)"

text \<open>A graph in which no node holds an entry whose flag is clear.\<close>

definition all_flagged :: "GraphModule \<Rightarrow> bool" where
  "all_flagged model \<longleftrightarrow> (\<forall>n. entry_flagged model n)"

text \<open>
  Two graphs with the same node count, operator kinds and argument wiring, whose nodes
  need not be the same objects: \<open>\<pi>\<close> sends each node of the first graph to the node of
  the second graph in the same place. Annotation entries that the graphs carry correspond
  under \<open>\<pi>\<close> as well (node by node and edge by edge); the other metadata is left free.
\<close>

fun rename_arg :: "(node \<Rightarrow> node) \<Rightarrow> arg \<Rightarrow> arg" where
  "rename_arg \<pi> (Arg_node n) = Arg_node (\<pi> n)"
| "rename_arg \<pi> (Arg_const c) = Arg_const c"

definition rename_partition :: "(node \<Rightarrow> node) \<Rightarrow> partition \<Rightarrow> partition" where
  "rename_partition \<pi> fp =
     \<lparr>part_nodes = map \<pi> (part_nodes fp), part_output = \<pi> (part_output fp)\<rparr>"

definition rename_inputs :: "(node \<Rightarrow> node) \<Rightarrow> input_anchor list \<Rightarrow> input_anchor list" where
  "rename_inputs \<pi> xs = map (\<lambda>(n, idx, custom_spec). (\<pi> n, idx, custom_spec)) xs"

definition rename_outputs :: "(node \<Rightarrow> node) \<Rightarrow> output_anchor list \<Rightarrow> output_anchor list" where
  "rename_outputs \<pi> outs = map (\<lambda>(n, custom_spec). (\<pi> n, custom_spec)) outs"

definition rename_anchors :: "(node \<Rightarrow> node) \<Rightarrow> PartitionAnchors \<Rightarrow> PartitionAnchors" where
  "rename_anchors \<pi> anchors =
     \<lparr>inputs = rename_inputs \<pi> (inputs anchors),
      weights = rename_inputs \<pi> (weights anchors),
      biases = rename_inputs \<pi> (biases anchors),
      output = rename_outputs \<pi> (output anchors)\<rparr>"

definition same_annotation ::
  "(node \<Rightarrow> node) \<Rightarrow> QuantizationAnnotation \<Rightarrow> QuantizationAnnotation \<Rightarrow> bool"
where
  "same_annotation \<pi> a b \<longleftrightarrow>
     output_qspec b = output_qspec a \<and> annotated b = annotated a \<and>
     (\<forall>k. input_qspec_map b (rename_arg \<pi> k) = input_qspec_map a k)"

definition structurally_identical :: "(node \<Rightarrow> node) \<Rightarrow> GraphModule \<Rightarrow> GraphModule \<Rightarrow> bool" where
  "structurally_identical \<pi> a b \<longleftrightarrow>
     nodes b = map \<pi> (nodes a) \<and>
     (\<forall>n. target b (\<pi> n) = target a n) \<and>
     (\<forall>n. args b (\<pi> n) = map (rename_arg \<pi>) (args a n)) \<and>
     (\<forall>n. rel_option (same_annotation \<pi>)
            (quantization_annotation a n) (quantization_annotation b (\<pi> n)))"

text \<open>The finder and the anchor functions of the patterns give corresponding partitions
  and anchors on corresponding graphs.\<close>

definition respects_renaming :: "'p collaborators \<Rightarrow> (node \<Rightarrow> node) \<Rightarrow> bool" where
  "respects_renaming env \<pi> \<longleftrightarrow>
     (\<forall>a b. structurally_identical \<pi> a b \<longrightarrow>
        (\<forall>types. find_sequential_partitions_aten env b types =
                  map (rename_partition \<pi>) (find_sequential_partitions_aten env a types)) \<and>
        (\<forall>p fp. get_anchors env p b (rename_partition \<pi> fp) =
                 map_option (rename_anchors \<pi>) (get_anchors env p a fp)))"

section \<open>Small graphs and three patterns to run the annotator on\<close>

text \<open>
  Nodes 0, 1, 2 are placeholders (activation, weight, bias), node 3 is a convolution of
  them, node 4 a relu of node 3, and node 5 adds nodes 3 and 4, so the convolution has two
  consumers.
\<close>

definition toy_graph :: GraphModule where
  "toy_graph =
     \<lparr>nodes = [0, 1, 2, 3, 4, 5],
      target = (\<lambda>n. if n = 3 then ''conv'' else if n = 4 then ''relu''
                     else if n = 5 then ''add'' else ''placeholder''),
      args = (\<lambda>n. if n = 3 then [Arg_node 0, Arg_node 1, Arg_node 2]
                   else if n = 4 then [Arg_node 3]
                   else if n = 5 then [Arg_node 3, Arg_node 4] else []),
      quantization_annotation = Map.empty,
      meta_other = (\<lambda>n. Map.empty)\<rparr>"

datatype toy_pattern = Toy_conv | Toy_conv_relu | Toy_relu_add

text \<open>
  A finder over operator kinds: one partition per node for a single kind, one partition per
  producer/consumer pair for two kinds.
\<close>

definition toy_find :: "GraphModule \<Rightarrow> string list \<Rightarrow> partition list" where
  "toy_find model types =
     (case types of
        [t] \<Rightarrow>
          map (\<lambda>n. \<lparr>part_nodes = [n], part_output = n\<rparr>)
            (filter (\<lambda>n. target model n = t) (nodes model))
      | [t1, t2] \<Rightarrow>
          concat (map (\<lambda>n2.
              map (\<lambda>n1. \<lparr>part_nodes = [n1, n2], part_output = n2\<rparr>)
                (filter (\<lambda>n1. target model n1 = t1 \<and> Arg_node n1 \<in> set (args model n2))
                   (nodes model)))
            (filter (\<lambda>n2. target model n2 = t2) (nodes model)))
      | _ \<Rightarrow> [])"

definition toy_types :: "toy_pattern \<Rightarrow> string list" where
  "toy_types p = (case p of Toy_conv \<Rightarrow> [''conv''] | Toy_conv_relu \<Rightarrow> [''conv'', ''relu'']
                  | Toy_relu_add \<Rightarrow> [''relu'', ''add''])"

text \<open>
  \<open>Toy_conv\<close> anchors everything on the convolution node; \<open>Toy_conv_relu\<close> takes
  its inputs at the convolution and its output at the relu; \<open>Toy_relu_add\<close> takes its
  input at the relu and its output at the add.
\<close>

definition toy_anchors ::
  "toy_pattern \<Rightarrow> GraphModule \<Rightarrow> partition \<Rightarrow> PartitionAnchors option"
where
  "toy_anchors p model fp =
     (case part_nodes fp of
        [] \<Rightarrow> None
      | c # _ \<Rightarrow>
          (case p of
             Toy_relu_add \<Rightarrow>
               if length (args model c) < 1 then None
               else Some
                 \<lparr>inputs = [(c, 0, [])], weights = [], biases = [],
                  output = [(part_output fp, [])]\<rparr>
           | _ \<Rightarrow>
               if length (args model c) < 2 then None
               else Some
                 \<lparr>inputs = [(c, 0, [])],
                  weights = [(c, 1, [])],
                  biases = (if 2 < length (args model c) then [(c, 2, [])] else []),
                  output =
                    (case p of
                       Toy_conv \<Rightarrow> [(c, [])]
                     | _ \<Rightarrow> [(part_output fp, [])])\<rparr>))"

definition toy_env :: "toy_pattern collaborators" where
  "toy_env =
     \<lparr>find_sequential_partitions_aten = toy_find,
      partition_types = toy_types,
      get_anchors = toy_anchors\<rparr>"

definition toy_quantizer :: "toy_pattern \<Rightarrow> toy_pattern CadenceAtenQuantizer" where
  "toy_quantizer p = \<lparr>pattern = p, quantization_config = default_qconfig\<rparr>"

text \<open>The same graph without the add node: the convolution has the relu as its only
  consumer.\<close>

definition toy_chain :: GraphModule where
  "toy_chain =
     \<lparr>nodes = [0, 1, 2, 3, 4],
      target = (\<lambda>n. if n = 3 then ''conv'' else if n = 4 then ''relu'' else ''placeholder''),
      args = (\<lambda>n. if n = 3 then [Arg_node 0, Arg_node 1, Arg_node 2]
                   else if n = 4 then [Arg_node 3] else []),
      quantization_annotation = Map.empty,
      meta_other = (\<lambda>n. Map.empty)\<rparr>"

text \<open>The chain, entering with a default entry (nothing bound, flag clear) on the
  convolution node.\<close>

definition toy_chain_unflagged :: GraphModule where
  "toy_chain_unflagged =
     toy_chain\<lparr>quantization_annotation :=
       [3 \<mapsto> \<lparr>input_qspec_map = Map.empty, output_qspec = None, annotated = False\<rparr>]\<rparr>"

text \<open>A chain in which the add consumes the relu and the activation placeholder, entering
  with a default entry (nothing bound, flag clear) on the relu node.\<close>

definition toy_tail_unflagged :: GraphModule where
  "toy_tail_unflagged =
     \<lparr>nodes = [0, 1, 2, 3, 4, 5],
      target = (\<lambda>n. if n = 3 then ''conv'' else if n = 4 then ''relu''
                     else if n = 5 then ''add'' else ''placeholder''),
      args = (\<lambda>n. if n = 3 then [Arg_node 0, Arg_node 1, Arg_node 2]
                   else if n = 4 then [Arg_node 3]
                   else if n = 5 then [Arg_node 4, Arg_node 0] else []),
      quantization_annotation =
        [4 \<mapsto> \<lparr>input_qspec_map = Map.empty, output_qspec = None, annotated = False\<rparr>],
      meta_other = (\<lambda>n. Map.empty)\<rparr>"

text \<open>The first graph traced a second time: nodes numbered in the opposite order and
  other metadata of its own.\<close>

definition toy_mirror :: "node \<Rightarrow> node" where
  "toy_mirror n = (if n < 6 then 5 - n else n)"

definition toy_graph_mirrored :: GraphModule where
  "toy_graph_mirrored =
     \<lparr>nodes = [5, 4, 3, 2, 1, 0],
      target = (\<lambda>n. if n = 2 then ''conv'' else if n = 1 then ''relu''
                     else if n = 0 then ''add'' else ''placeholder''),
      args = (\<lambda>n. if n = 2 then [Arg_node 5, Arg_node 4, Arg_node 3]
                   else if n = 1 then [Arg_node 2]
                   else if n = 0 then [Arg_node 2, Arg_node 1] else []),
      quantization_annotation = Map.empty,
      meta_other = (\<lambda>n. [''name'' \<mapsto> ''second trace''])\<rparr>"

section \<open>Auxiliary facts\<close>

lemma same_structure_refl: "same_structure m m"
  by (simp add: same_structure_def)

lemma same_structure_trans [trans]:
  "same_structure a b \<Longrightarrow> same_structure b c \<Longrightarrow> same_structure a c"
  by (simp add: same_structure_def)

lemma annotate_outputs_structure:
  "same_structure model (annotate_outputs outs d model)"
proof (induction outs d model rule: annotate_outputs.induct)
  case (1 d model)
  show ?case by (simp add: same_structure_def)
next
  case (2 out custom_spec rest d model)
  then show ?case by (simp add: same_structure_def)
qed

lemma annotate_inputs_structure:
  "annotate_inputs xs spec model = Inr model' \<Longrightarrow> same_structure model model'"
proof (induction xs spec model rule: annotate_inputs.induct)
  case (1 spec model)
  then show ?case by (simp add: same_structure_def)
next
  case (2 n idx custom_spec rest spec model)
  from "2.prems" obtain edge where e: "getitem (args model n) idx = Inr edge"
    by (cases "getitem (args model n) idx") (simp_all add: Let_def)
  with "2.prems" "2.IH" show ?case
    by (simp add: Let_def same_structure_def)
qed

lemma assign_specs_structure:
  assumes "assign_specs cfg anchors model = Inr model'"
  shows "same_structure model model'"
proof -
  let ?m0 = "annotate_outputs (output anchors) (map_option Plain (output_activation cfg)) model"
  from assms obtain m1 m2 where
    s1: "annotate_inputs (inputs anchors) (map_option Plain (input_activation cfg)) ?m0 = Inr m1" and
    s2: "annotate_inputs (weights anchors) (map_option Plain (weight cfg)) m1 = Inr m2" and
    s3: "annotate_inputs (biases anchors) (map_option Plain (bias cfg)) m2 = Inr model'"
    unfolding assign_specs_def by (auto split: sum.splits)
  have "same_structure model ?m0" by (rule annotate_outputs_structure)
  also have "same_structure ?m0 m1" using s1 by (rule annotate_inputs_structure)
  also have "same_structure m1 m2" using s2 by (rule annotate_inputs_structure)
  also have "same_structure m2 model'" using s3 by (rule annotate_inputs_structure)
  finally show ?thesis .
qed

lemma annotate_partition_structure:
  "annotate_partition env self fp model = Inr model' \<Longrightarrow> same_structure model model'"
  unfolding annotate_partition_def
  by (auto split: if_splits option.splits
      dest: assign_specs_structure simp: same_structure_refl)

lemma annotate_partitions_structure:
  "annotate_partitions env self fps model = Inr model' \<Longrightarrow> same_structure model model'"
proof (induction fps arbitrary: model)
  case Nil
  then show ?case by (simp add: same_structure_refl)
next
  case (Cons fp fps)
  then show ?case
    by (auto split: sum.splits dest!: annotate_partition_structure
        intro: same_structure_trans)
qed

lemma annotate_structure:
  "annotate env self model = Inr model' \<Longrightarrow> same_structure model model'"
  unfolding annotate_def by (rule annotate_partitions_structure)

lemma annotate_all_structure:
  "annotate_all env qs model = Inr model' \<Longrightarrow> same_structure model model'"
proof (induction qs arbitrary: model)
  case Nil
  then show ?case by (simp add: same_structure_refl)
next
  case (Cons q qs)
  then show ?case
    by (auto split: sum.splits dest!: annotate_structure intro: same_structure_trans)
qed

lemma getitem_returns: "index_ok xs idx \<Longrightarrow> \<exists>x. getitem xs idx = Inr x"
  by (auto simp: getitem_def index_ok_def)

lemma getitem_raises: "\<not> index_ok xs idx \<Longrightarrow> getitem xs idx = Inl IndexError"
  by (auto simp: getitem_def index_ok_def)

lemma annotate_outputs_args [simp]: "args (annotate_outputs outs d model) = args model"
  using annotate_outputs_structure [of model outs d] by (simp add: same_structure_def)

lemma annotate_inputs_args: "annotate_inputs xs spec model = Inr model' \<Longrightarrow> args model' = args model"
  by (drule annotate_inputs_structure) (simp add: same_structure_def)

lemma annotate_inputs_returns:
  "list_all (\<lambda>(n, idx, custom_spec). index_ok (args model n) idx) xs \<Longrightarrow>
   \<exists>model'. annotate_inputs xs spec model = Inr model'"
proof (induction xs spec model rule: annotate_inputs.induct)
  case (1 spec model)
  show ?case by simp
next
  case (2 n idx custom_spec rest spec model)
  from "2.prems" have ok: "index_ok (args model n) idx" by simp
  then obtain edge where e: "getitem (args model n) idx = Inr edge"
    using getitem_returns by blast
  from "2.prems" have rest: "list_all (\<lambda>(n, idx, custom_spec). index_ok (args model n) idx) rest"
    by simp
  show ?case using "2.IH" [OF refl e] rest e by (simp add: Let_def)
qed

lemma assign_specs_returns:
  assumes "anchors_in_range model anchors"
  shows "\<exists>model'. assign_specs cfg anchors model = Inr model'"
proof -
  let ?P = "\<lambda>m. (\<lambda>(n, idx, custom_spec). index_ok (args m n) idx)"
  let ?m0 = "annotate_outputs (output anchors) (map_option Plain (output_activation cfg)) model"
  from assms have r: "list_all (?P model) (inputs anchors)" "list_all (?P model) (weights anchors)"
      "list_all (?P model) (biases anchors)"
    by (simp_all add: anchors_in_range_def)
  from r(1) have "list_all (?P ?m0) (inputs anchors)" by simp
  then obtain m1 where s1:
    "annotate_inputs (inputs anchors) (map_option Plain (input_activation cfg)) ?m0 = Inr m1"
    using annotate_inputs_returns by blast
  then have a1: "args m1 = args model" by (simp add: annotate_inputs_args)
  with r(2) have "list_all (?P m1) (weights anchors)" by simp
  then obtain m2 where s2:
    "annotate_inputs (weights anchors) (map_option Plain (weight cfg)) m1 = Inr m2"
    using annotate_inputs_returns by blast
  then have "args m2 = args model" using a1 by (simp add: annotate_inputs_args)
  with r(3) have "list_all (?P m2) (biases anchors)" by simp
  then obtain m3 where s3:
    "annotate_inputs (biases anchors) (map_option Plain (bias cfg)) m2 = Inr m3"
    using annotate_inputs_returns by blast
  show ?thesis using s1 s2 s3 by (simp add: assign_specs_def)
qed

lemma annotate_outputs_other:
  "n \<notin> fst ` set outs \<Longrightarrow>
   quantization_annotation (annotate_outputs outs d model) n = quantization_annotation model n"
  by (induction outs d model rule: annotate_outputs.induct) auto

lemma annotate_inputs_other:
  "annotate_inputs xs spec model = Inr model' \<Longrightarrow> n \<notin> fst ` set xs \<Longrightarrow>
   quantization_annotation model' n = quantization_annotation model n"
proof (induction xs spec model rule: annotate_inputs.induct)
  case (1 spec model)
  then show ?case by simp
next
  case (2 m idx custom_spec rest spec model)
  from "2.prems"(1) obtain edge where e: "getitem (args model m) idx = Inr edge"
    by (cases "getitem (args model m) idx") (simp_all add: Let_def)
  from "2.prems"(2) have ne: "n \<noteq> m" and nr: "n \<notin> fst ` set rest" by auto
  show ?case using "2.IH" [OF refl e _ nr] "2.prems"(1) e ne by (simp add: Let_def)
qed

lemma assign_specs_other:
  assumes "assign_specs cfg anchors model = Inr model'" and "n \<notin> set (anchor_nodes anchors)"
  shows "quantization_annotation model' n = quantization_annotation model n"
proof -
  let ?m0 = "annotate_outputs (output anchors) (map_option Plain (output_activation cfg)) model"
  from assms(1) obtain m1 m2 where
    s1: "annotate_inputs (inputs anchors) (map_option Plain (input_activation cfg)) ?m0 = Inr m1" and
    s2: "annotate_inputs (weights anchors) (map_option Plain (weight cfg)) m1 = Inr m2" and
    s3: "annotate_inputs (biases anchors) (map_option Plain (bias cfg)) m2 = Inr model'"
    unfolding assign_specs_def by (auto split: sum.splits)
  from assms(2) have n: "n \<notin> fst ` set (output anchors)" "n \<notin> fst ` set (inputs anchors)"
      "n \<notin> fst ` set (weights anchors)" "n \<notin> fst ` set (biases anchors)"
    by (auto simp: anchor_nodes_def)
  show ?thesis
    using annotate_inputs_other [OF s3 n(4)] annotate_inputs_other [OF s2 n(3)]
      annotate_inputs_other [OF s1 n(2)] annotate_outputs_other [OF n(1)]
    by simp
qed

lemma is_annotated_iff: "is_annotated model ns \<longleftrightarrow> (\<exists>n \<in> set ns. node_annotated model n)"
  by (simp add: is_annotated_def list_ex_iff)

lemma annotate_partition_rejects_annotated:
  assumes "get_anchors env (pattern self) model fp = Some anchors"
    and "n \<in> set (anchor_nodes anchors)" and "node_annotated model n"
  shows "annotate_partition env self fp model = Inr model"
  using assms by (auto simp: annotate_partition_def is_annotated_iff)

lemma annotate_partition_frozen:
  assumes "annotate_partition env self fp model = Inr model'" and "node_annotated model n"
  shows "quantization_annotation model' n = quantization_annotation model n"
  using assms
  by (auto simp: annotate_partition_def is_annotated_iff
      split: if_splits option.splits dest: assign_specs_other)

lemma annotate_partitions_frozen:
  "annotate_partitions env self fps model = Inr model' \<Longrightarrow> node_annotated model n \<Longrightarrow>
   quantization_annotation model' n = quantization_annotation model n"
proof (induction fps arbitrary: model)
  case Nil
  then show ?case by simp
next
  case (Cons fp fps)
  from Cons.prems(1) obtain m1 where
    s1: "annotate_partition env self fp model = Inr m1" and
    s2: "annotate_partitions env self fps m1 = Inr model'"
    by (auto split: sum.splits)
  have eq: "quantization_annotation m1 n = quantization_annotation model n"
    using s1 Cons.prems(2) by (rule annotate_partition_frozen)
  with Cons.prems(2) have "node_annotated m1 n" by (simp add: node_annotated_def)
  with Cons.IH [OF s2] eq show ?case by simp
qed

lemma annotate_frozen:
  "annotate env self model = Inr model' \<Longrightarrow> node_annotated model n \<Longrightarrow>
   quantization_annotation model' n = quantization_annotation model n"
  unfolding annotate_def by (rule annotate_partitions_frozen)

lemma annotate_all_frozen:
  "annotate_all env qs model = Inr model' \<Longrightarrow> node_annotated model n \<Longrightarrow>
   quantization_annotation model' n = quantization_annotation model n"
proof (induction qs arbitrary: model)
  case Nil
  then show ?case by simp
next
  case (Cons q qs)
  from Cons.prems(1) obtain m1 where
    s1: "annotate env q model = Inr m1" and s2: "annotate_all env qs m1 = Inr model'"
    by (auto split: sum.splits)
  have eq: "quantization_annotation m1 n = quantization_annotation model n"
    using s1 Cons.prems(2) by (rule annotate_frozen)
  with Cons.prems(2) have "node_annotated m1 n" by (simp add: node_annotated_def)
  with Cons.IH [OF s2] eq show ?case by simp
qed

lemma annotate_inputs_index:
  "annotate_inputs xs spec model = Inr model' \<Longrightarrow> (n, idx, cs) \<in> set xs \<Longrightarrow>
   \<exists>k. getitem (args model n) idx = Inr k"
proof (induction xs spec model rule: annotate_inputs.induct)
  case (1 spec model)
  then show ?case by simp
next
  case (2 m i c rest spec model)
  from "2.prems"(1) obtain edge where e: "getitem (args model m) i = Inr edge"
    by (cases "getitem (args model m) i") (simp_all add: Let_def)
  show ?case
  proof (cases "(n, idx, cs) = (m, i, c)")
    case True
    with e show ?thesis by auto
  next
    case False
    with "2.prems"(2) have "(n, idx, cs) \<in> set rest" by auto
    with "2.IH" [OF refl e] "2.prems"(1) e show ?thesis by (simp add: Let_def)
  qed
qed

lemma annotate_inputs_merge:
  "annotate_inputs xs spec model = Inr model' \<Longrightarrow> quantization_annotation model n = Some a \<Longrightarrow>
   \<exists>a'. quantization_annotation model' n = Some a' \<and>
        output_qspec a' = output_qspec a \<and> annotated a' = annotated a \<and>
        dom (input_qspec_map a) \<subseteq> dom (input_qspec_map a') \<and>
        (\<forall>k. (\<forall>idx cs. (n, idx, cs) \<in> set xs \<longrightarrow> getitem (args model n) idx \<noteq> Inr k) \<longrightarrow>
             input_qspec_map a' k = input_qspec_map a k)"
proof (induction xs spec model arbitrary: a rule: annotate_inputs.induct)
  case (1 spec model)
  then show ?case by auto
next
  case (2 m i c rest spec model)
  from "2.prems"(1) obtain edge where e: "getitem (args model m) i = Inr edge"
    by (cases "getitem (args model m) i") (simp_all add: Let_def)
  define ann where "ann =
    (case quantization_annotation model m of
       None \<Rightarrow> \<lparr>input_qspec_map = Map.empty, output_qspec = None, annotated = True\<rparr>
     | Some a \<Rightarrow> a)"
  define m1 where "m1 = model\<lparr>quantization_annotation := (quantization_annotation model)
      (m \<mapsto> ann\<lparr>input_qspec_map := (input_qspec_map ann)(edge \<mapsto> choose_spec c spec)\<rparr>)\<rparr>"
  have run: "annotate_inputs rest spec m1 = Inr model'"
    using "2.prems"(1) e by (simp add: Let_def m1_def ann_def)
  have args1: "args m1 = args model" by (simp add: m1_def)
  note IH = "2.IH" [OF refl e, folded ann_def, folded m1_def, OF run]
  show ?case
  proof (cases "m = n")
    case False
    then have "quantization_annotation m1 n = Some a"
      using "2.prems"(2) by (simp add: m1_def)
    from IH [OF this] False show ?thesis unfolding args1 by auto
  next
    case True
    then have ann: "ann = a" using "2.prems"(2) by (simp add: ann_def)
    let ?a1 = "a\<lparr>input_qspec_map := (input_qspec_map a)(edge \<mapsto> choose_spec c spec)\<rparr>"
    have "quantization_annotation m1 n = Some ?a1" using True ann by (simp add: m1_def)
    from IH [OF this] obtain a' where raw:
      "quantization_annotation model' n = Some a'"
      "output_qspec a' = output_qspec ?a1" "annotated a' = annotated ?a1"
      "dom (input_qspec_map ?a1) \<subseteq> dom (input_qspec_map a')"
      "\<forall>k. (\<forall>idx cs. (n, idx, cs) \<in> set rest \<longrightarrow> getitem (args m1 n) idx \<noteq> Inr k) \<longrightarrow>
           input_qspec_map a' k = input_qspec_map ?a1 k"
      by blast
    have a': "quantization_annotation model' n = Some a'"
      "output_qspec a' = output_qspec a" "annotated a' = annotated a"
      "dom (input_qspec_map ?a1) \<subseteq> dom (input_qspec_map a')"
      "\<forall>k. (\<forall>idx cs. (n, idx, cs) \<in> set rest \<longrightarrow> getitem (args model n) idx \<noteq> Inr k) \<longrightarrow>
           input_qspec_map a' k = input_qspec_map ?a1 k"
      using raw unfolding args1 by simp_all
    have "dom (input_qspec_map a) \<subseteq> dom (input_qspec_map a')" using a'(4) by auto
    moreover have "input_qspec_map a' k = input_qspec_map a k"
      if "\<forall>idx cs. (n, idx, cs) \<in> set ((m, i, c) # rest) \<longrightarrow> getitem (args model n) idx \<noteq> Inr k" for k
    proof -
      from that True e have "k \<noteq> edge" by auto
      moreover from that have "\<forall>idx cs. (n, idx, cs) \<in> set rest \<longrightarrow> getitem (args model n) idx \<noteq> Inr k"
        by auto
      ultimately show ?thesis using a'(5) by simp
    qed
    ultimately show ?thesis using a'(1-3) by blast
  qed
qed

lemma annotate_inputs_binding:
  "annotate_inputs xs spec model = Inr model' \<Longrightarrow> (n, idx, cs) \<in> set xs \<Longrightarrow>
   getitem (args model n) idx = Inr k \<Longrightarrow>
   (\<forall>idx' cs'. (n, idx', cs') \<in> set xs \<longrightarrow> getitem (args model n) idx' = Inr k \<longrightarrow>
       choose_spec cs' spec = v) \<Longrightarrow>
   \<exists>a'. quantization_annotation model' n = Some a' \<and> input_qspec_map a' k = Some v"
proof (induction xs spec model arbitrary: idx cs rule: annotate_inputs.induct)
  case (1 spec model)
  then show ?case by simp
next
  case (2 m i c rest spec model)
  from "2.prems"(1) obtain edge where e: "getitem (args model m) i = Inr edge"
    by (cases "getitem (args model m) i") (simp_all add: Let_def)
  define ann where "ann =
    (case quantization_annotation model m of
       None \<Rightarrow> \<lparr>input_qspec_map = Map.empty, output_qspec = None, annotated = True\<rparr>
     | Some a \<Rightarrow> a)"
  define m1 where "m1 = model\<lparr>quantization_annotation := (quantization_annotation model)
      (m \<mapsto> ann\<lparr>input_qspec_map := (input_qspec_map ann)(edge \<mapsto> choose_spec c spec)\<rparr>)\<rparr>"
  have run: "annotate_inputs rest spec m1 = Inr model'"
    using "2.prems"(1) e by (simp add: Let_def m1_def ann_def)
  have args1: "args m1 = args model" by (simp add: m1_def)
  note IH = "2.IH" [OF refl e, folded ann_def, folded m1_def, OF run]
  have uni: "\<forall>idx' cs'. (n, idx', cs') \<in> set rest \<longrightarrow> getitem (args m1 n) idx' = Inr k \<longrightarrow>
       choose_spec cs' spec = v"
    using "2.prems"(4) by (auto simp: args1)
  show ?case
  proof (cases "\<exists>idx' cs'. (n, idx', cs') \<in> set rest \<and> getitem (args model n) idx' = Inr k")
    case True
    then obtain idx' cs' where "(n, idx', cs') \<in> set rest" "getitem (args m1 n) idx' = Inr k"
      by (auto simp: args1)
    from IH [OF this uni] show ?thesis .
  next
    case False
    with "2.prems"(2,3) have hd: "m = n" "i = idx" "c = cs" by auto
    with e "2.prems"(3) have ek: "edge = k" by simp
    from "2.prems"(4) hd "2.prems"(3) have v: "choose_spec c spec = v" by auto
    let ?a1 = "ann\<lparr>input_qspec_map := (input_qspec_map ann)(edge \<mapsto> choose_spec c spec)\<rparr>"
    have q1: "quantization_annotation m1 n = Some ?a1" using hd by (simp add: m1_def)
    from annotate_inputs_merge [OF run q1] obtain a' where a':
      "quantization_annotation model' n = Some a'"
      "\<forall>k. (\<forall>idx cs. (n, idx, cs) \<in> set rest \<longrightarrow> getitem (args m1 n) idx \<noteq> Inr k) \<longrightarrow>
           input_qspec_map a' k = input_qspec_map ?a1 k"
      by blast
    from False have "\<forall>idx cs. (n, idx, cs) \<in> set rest \<longrightarrow> getitem (args m1 n) idx \<noteq> Inr k"
      by (auto simp: args1)
    with a'(2) have "input_qspec_map a' k = input_qspec_map ?a1 k" by blast
    with ek v a'(1) show ?thesis by simp
  qed
qed

lemma annotate_outputs_fresh:
  "(n, cs) \<in> set outs \<Longrightarrow>
   \<exists>cs'. (n, cs') \<in> set outs \<and>
     quantization_annotation (annotate_outputs outs d model) n =
       Some \<lparr>input_qspec_map = Map.empty, output_qspec = choose_spec cs' d, annotated = True\<rparr>"
proof (induction outs d model arbitrary: cs rule: annotate_outputs.induct)
  case (1 d model)
  then show ?case by simp
next
  case (2 out c rest d model)
  show ?case
  proof (cases "n \<in> fst ` set rest")
    case True
    then obtain cs2 where "(n, cs2) \<in> set rest" by auto
    from "2.IH" [OF this] show ?thesis by auto
  next
    case False
    with "2.prems" have hd: "out = n" by force
    from annotate_outputs_other [OF False] hd show ?thesis by auto
  qed
qed

lemma annotate_outputs_flagged:
  "entry_flagged model n \<Longrightarrow> entry_flagged (annotate_outputs outs d model) n"
  by (induction outs d model rule: annotate_outputs.induct) (auto simp: entry_flagged_def)

lemma annotate_inputs_flagged:
  "annotate_inputs xs spec model = Inr model' \<Longrightarrow> entry_flagged model n \<Longrightarrow> entry_flagged model' n"
proof (induction xs spec model rule: annotate_inputs.induct)
  case (1 spec model)
  then show ?case by simp
next
  case (2 m i c rest spec model)
  from "2.prems"(1) obtain edge where e: "getitem (args model m) i = Inr edge"
    by (cases "getitem (args model m) i") (simp_all add: Let_def)
  define ann where "ann =
    (case quantization_annotation model m of
       None \<Rightarrow> \<lparr>input_qspec_map = Map.empty, output_qspec = None, annotated = True\<rparr>
     | Some a \<Rightarrow> a)"
  define m1 where "m1 = model\<lparr>quantization_annotation := (quantization_annotation model)
      (m \<mapsto> ann\<lparr>input_qspec_map := (input_qspec_map ann)(edge \<mapsto> choose_spec c spec)\<rparr>)\<rparr>"
  have run: "annotate_inputs rest spec m1 = Inr model'"
    using "2.prems"(1) e by (simp add: Let_def m1_def ann_def)
  have "entry_flagged m1 n"
    using "2.prems"(2) by (auto simp: m1_def ann_def entry_flagged_def split: option.splits)
  with "2.IH" [OF refl e, folded ann_def, folded m1_def, OF run] show ?case .
qed

lemma assign_specs_flagged:
  assumes "assign_specs cfg anchors model = Inr model'" and "entry_flagged model n"
  shows "entry_flagged model' n"
proof -
  let ?m0 = "annotate_outputs (output anchors) (map_option Plain (output_activation cfg)) model"
  from assms(1) obtain m1 m2 where
    s1: "annotate_inputs (inputs anchors) (map_option Plain (input_activation cfg)) ?m0 = Inr m1" and
    s2: "annotate_inputs (weights anchors) (map_option Plain (weight cfg)) m1 = Inr m2" and
    s3: "annotate_inputs (biases anchors) (map_option Plain (bias cfg)) m2 = Inr model'"
    unfolding assign_specs_def by (auto split: sum.splits)
  have "entry_flagged ?m0 n" using assms(2) by (rule annotate_outputs_flagged)
  then have "entry_flagged m1 n" by (rule annotate_inputs_flagged [OF s1])
  then have "entry_flagged m2 n" by (rule annotate_inputs_flagged [OF s2])
  then show ?thesis by (rule annotate_inputs_flagged [OF s3])
qed

lemma annotate_partition_flagged:
  "annotate_partition env self fp model = Inr model' \<Longrightarrow> entry_flagged model n \<Longrightarrow>
   entry_flagged model' n"
  by (auto simp: annotate_partition_def split: if_splits option.splits
      dest: assign_specs_flagged)

lemma annotate_partitions_flagged:
  "annotate_partitions env self fps model = Inr model' \<Longrightarrow> entry_flagged model n \<Longrightarrow>
   entry_flagged model' n"
proof (induction fps arbitrary: model)
  case Nil
  then show ?case by simp
next
  case (Cons fp fps)
  from Cons.prems(1) obtain m1 where
    s1: "annotate_partition env self fp model = Inr m1" and
    s2: "annotate_partitions env self fps m1 = Inr model'"
    by (auto split: sum.splits)
  from s1 Cons.prems(2) have "entry_flagged m1 n" by (rule annotate_partition_flagged)
  with s2 show ?case by (rule Cons.IH)
qed

lemma annotate_all_flagged:
  "annotate_all env qs model = Inr model' \<Longrightarrow> entry_flagged model n \<Longrightarrow>
   entry_flagged model' n"
proof (induction qs arbitrary: model)
  case Nil
  then show ?case by simp
next
  case (Cons q qs)
  from Cons.prems(1) obtain m1 where
    s1: "annotate env q model = Inr m1" and s2: "annotate_all env qs m1 = Inr model'"
    by (auto split: sum.splits)
  from s1 Cons.prems(2) have "entry_flagged m1 n"
    unfolding annotate_def by (rule annotate_partitions_flagged)
  with s2 show ?case by (rule Cons.IH)
qed

lemma annotate_partition_returns:
  assumes "indices_in_range env (pattern self)"
  shows "\<exists>model'. annotate_partition env self fp model = Inr model'"
proof (cases "get_anchors env (pattern self) model fp")
  case None
  then show ?thesis by (simp add: annotate_partition_def)
next
  case (Some anchors)
  with assms have "anchors_in_range model anchors" by (auto simp: indices_in_range_def)
  from assign_specs_returns [OF this] Some show ?thesis
    by (auto simp: annotate_partition_def)
qed

lemma annotate_partitions_returns:
  assumes "indices_in_range env (pattern self)"
  shows "\<exists>model'. annotate_partitions env self fps model = Inr model'"
proof (induction fps arbitrary: model)
  case Nil
  show ?case by simp
next
  case (Cons fp fps)
  from annotate_partition_returns [OF assms] obtain m1 where
    "annotate_partition env self fp model = Inr m1" by blast
  with Cons.IH [of m1] show ?case by simp
qed

lemma annotate_returns:
  "indices_in_range env (pattern self) \<Longrightarrow> \<exists>model'. annotate env self model = Inr model'"
  unfolding annotate_def by (rule annotate_partitions_returns)

lemma users_structure: "same_structure model model' \<Longrightarrow> users model' n = users model n"
  by (simp add: same_structure_def users_def)

lemma no_outside_users_structure:
  "same_structure model model' \<Longrightarrow> no_outside_users model' fp = no_outside_users model fp"
  by (simp add: no_outside_users_def users_structure)

lemma outside_user_fails_check:
  assumes "n \<in> set (part_nodes fp)" "n \<noteq> part_output fp"
    and "m \<in> set (nodes model)" "Arg_node n \<in> set (args model m)" "m \<notin> set (part_nodes fp)"
  shows "\<not> no_outside_users model fp"
proof
  assume "no_outside_users model fp"
  with assms(1,2) have "list_all (\<lambda>m. m \<in> set (part_nodes fp)) (users model n)"
    by (auto simp: no_outside_users_def list_all_iff)
  moreover from assms(3,4) have "m \<in> set (users model n)" by (simp add: users_def)
  ultimately show False using assms(5) by (auto simp: list_all_iff)
qed

lemma annotate_partitions_skip:
  "\<not> no_outside_users model fp \<Longrightarrow>
   annotate_partitions env self (fps1 @ fp # fps2) model =
   annotate_partitions env self (fps1 @ fps2) model"
proof (induction fps1 arbitrary: model)
  case Nil
  then show ?case by (simp add: annotate_partition_def)
next
  case (Cons f fps1)
  show ?case
  proof (cases "annotate_partition env self f model")
    case (Inl e)
    then show ?thesis by simp
  next
    case (Inr m1)
    then have "same_structure model m1" by (rule annotate_partition_structure)
    with Cons.prems have "\<not> no_outside_users m1 fp" by (simp add: no_outside_users_structure)
    from Cons.IH [OF this] Inr show ?thesis by simp
  qed
qed

lemmas toy_defs = toy_env_def toy_find_def toy_types_def toy_anchors_def toy_graph_def
  toy_quantizer_def annotate_def annotate_partition_def assign_specs_def
  no_outside_users_def users_def is_annotated_def node_annotated_def anchor_nodes_def
  getitem_def choose_spec_def default_qconfig_def

lemma toy_indices_in_range: "indices_in_range toy_env p"
  by (auto simp: indices_in_range_def toy_env_def toy_anchors_def anchors_in_range_def
      index_ok_def split: list.splits if_splits toy_pattern.splits)

lemma annotate_all_returns:
  "(\<forall>q \<in> set qs. indices_in_range env (pattern q)) \<Longrightarrow>
   \<exists>model'. annotate_all env qs model = Inr model'"
proof (induction qs arbitrary: model)
  case Nil
  show ?case by simp
next
  case (Cons q qs)
  then obtain m1 where "annotate env q model = Inr m1"
    using annotate_returns [of env q model] by auto
  with Cons.IH [of m1] Cons.prems show ?case by simp
qed

lemma annotate_all_append:
  "annotate_all env (qs1 @ qs2) model =
   (case annotate_all env qs1 model of Inl e \<Rightarrow> Inl e | Inr m \<Rightarrow> annotate_all env qs2 m)"
  by (induction qs1 arbitrary: model) (simp_all split: sum.splits)

lemma assign_specs_steps:
  assumes "assign_specs cfg anchors model = Inr model'"
  obtains m1 m2 where
    "annotate_inputs (inputs anchors) (map_option Plain (input_activation cfg))
       (annotate_outputs (output anchors) (map_option Plain (output_activation cfg)) model) = Inr m1"
    "annotate_inputs (weights anchors) (map_option Plain (weight cfg)) m1 = Inr m2"
    "annotate_inputs (biases anchors) (map_option Plain (bias cfg)) m2 = Inr model'"
  using assms unfolding assign_specs_def by (auto split: sum.splits)

lemma accepted_partition:
  assumes "no_outside_users model fp"
    and "get_anchors env (pattern self) model fp = Some anchors"
    and "\<not> is_annotated model (anchor_nodes anchors)"
  shows "annotate_partition env self fp model =
           assign_specs (quantization_config self) anchors model"
  using assms by (simp add: annotate_partition_def)

lemma toy_conv_partitions:
  "find_sequential_partitions_aten toy_env toy_graph (partition_types toy_env Toy_conv) =
     [\<lparr>part_nodes = [3], part_output = 3\<rparr>]"
  by (simp add: toy_defs)

lemma bucket_writes_iff:
  "(n, idx, v) \<in> set (bucket_writes spec xs) \<longleftrightarrow>
   (\<exists>cs. (n, idx, cs) \<in> set xs \<and> v = choose_spec cs spec)"
  by (force simp: bucket_writes_def)

lemma annotate_inputs_rebound:
  assumes "annotate_inputs xs spec model = Inr model'" and "(n, idx, cs) \<in> set xs"
    and "getitem (args model n) idx = Inr k"
  shows "\<exists>idx' v a'. (n, idx', v) \<in> set (bucket_writes spec xs) \<and>
           getitem (args model n) idx' = Inr k \<and>
           quantization_annotation model' n = Some a' \<and> input_qspec_map a' k = Some v"
  using assms
proof (induction xs arbitrary: model idx cs)
  case Nil
  then show ?case by simp
next
  case (Cons x xs)
  obtain m i c where x: "x = (m, i, c)" by (cases x)
  from Cons.prems(1) obtain edge where e: "getitem (args model m) i = Inr edge"
    unfolding x by (cases "getitem (args model m) i") (simp_all add: Let_def)
  define ann where "ann =
    (case quantization_annotation model m of
       None \<Rightarrow> \<lparr>input_qspec_map = Map.empty, output_qspec = None, annotated = True\<rparr>
     | Some a \<Rightarrow> a)"
  define m1 where "m1 = model\<lparr>quantization_annotation := (quantization_annotation model)
      (m \<mapsto> ann\<lparr>input_qspec_map := (input_qspec_map ann)(edge \<mapsto> choose_spec c spec)\<rparr>)\<rparr>"
  have run: "annotate_inputs xs spec m1 = Inr model'"
    using Cons.prems(1) e unfolding x by (simp add: Let_def m1_def ann_def)
  have args1: "args m1 = args model" by (simp add: m1_def)
  show ?case
  proof (cases "\<exists>idx' cs'. (n, idx', cs') \<in> set xs \<and> getitem (args model n) idx' = Inr k")
    case True
    then obtain idx' cs' where w: "(n, idx', cs') \<in> set xs" "getitem (args m1 n) idx' = Inr k"
      unfolding args1 by blast
    from Cons.IH [OF run w] show ?thesis
      unfolding args1 bucket_writes_iff by (metis list.set_intros(2))
  next
    case False
    with Cons.prems(2,3) x have hd: "m = n" "i = idx" "c = cs" by auto
    with e Cons.prems(3) have ek: "edge = k" by simp
    let ?a1 = "ann\<lparr>input_qspec_map := (input_qspec_map ann)(edge \<mapsto> choose_spec c spec)\<rparr>"
    have q1: "quantization_annotation m1 n = Some ?a1" using hd by (simp add: m1_def)
    from annotate_inputs_merge [OF run q1] obtain a' where a':
      "quantization_annotation model' n = Some a'"
      "\<forall>k. (\<forall>idx cs. (n, idx, cs) \<in> set xs \<longrightarrow> getitem (args m1 n) idx \<noteq> Inr k) \<longrightarrow>
           input_qspec_map a' k = input_qspec_map ?a1 k"
      by blast
    from False have "\<forall>idx cs. (n, idx, cs) \<in> set xs \<longrightarrow> getitem (args m1 n) idx \<noteq> Inr k"
      unfolding args1 by blast
    with a'(2) have "input_qspec_map a' k = input_qspec_map ?a1 k" by blast
    then have v: "input_qspec_map a' k = Some (choose_spec cs spec)" using ek hd by simp
    have "(n, idx, choose_spec cs spec) \<in> set (bucket_writes spec (x # xs))"
      using x hd unfolding bucket_writes_iff by auto
    with v a'(1) Cons.prems(3) show ?thesis by blast
  qed
qed

lemma annotate_inputs_unwritten:
  assumes "annotate_inputs xs spec model = Inr model'"
    and "quantization_annotation model n = Some a"
    and "\<forall>idx v. (n, idx, v) \<in> set (bucket_writes spec xs) \<longrightarrow> getitem (args model n) idx \<noteq> Inr k"
  shows "\<exists>a'. quantization_annotation model' n = Some a' \<and>
           output_qspec a' = output_qspec a \<and> annotated a' = annotated a \<and>
           dom (input_qspec_map a) \<subseteq> dom (input_qspec_map a') \<and>
           input_qspec_map a' k = input_qspec_map a k"
proof -
  from annotate_inputs_merge [OF assms(1,2)] obtain a' where a':
    "quantization_annotation model' n = Some a'"
    "output_qspec a' = output_qspec a" "annotated a' = annotated a"
    "dom (input_qspec_map a) \<subseteq> dom (input_qspec_map a')"
    "\<forall>k. (\<forall>idx cs. (n, idx, cs) \<in> set xs \<longrightarrow> getitem (args model n) idx \<noteq> Inr k) \<longrightarrow>
         input_qspec_map a' k = input_qspec_map a k"
    by blast
  from assms(3) have "\<forall>idx cs. (n, idx, cs) \<in> set xs \<longrightarrow> getitem (args model n) idx \<noteq> Inr k"
    by (auto simp: bucket_writes_iff)
  with a'(5) have "input_qspec_map a' k = input_qspec_map a k" by blast
  with a'(1-4) show ?thesis by blast
qed

lemma annotate_inputs_merge_basic:
  assumes "annotate_inputs xs spec model = Inr model'"
    and "quantization_annotation model n = Some a"
  shows "\<exists>a'. quantization_annotation model' n = Some a' \<and>
           output_qspec a' = output_qspec a \<and> annotated a' = annotated a \<and>
           dom (input_qspec_map a) \<subseteq> dom (input_qspec_map a')"
  using annotate_inputs_merge [OF assms] by blast

lemma assign_specs_after_outputs:
  assumes run: "assign_specs cfg anchors model = Inr model'"
    and a0: "quantization_annotation
        (annotate_outputs (output anchors) (map_option Plain (output_activation cfg)) model) n =
        Some a"
  shows "\<exists>a'. quantization_annotation model' n = Some a' \<and>
           output_qspec a' = output_qspec a \<and> annotated a' = annotated a \<and>
           dom (input_qspec_map a) \<subseteq> dom (input_qspec_map a') \<and>
           (\<forall>k. (\<forall>idx v. (n, idx, v) \<in> set (chosen_specs cfg anchors) \<longrightarrow>
                    getitem (args model n) idx \<noteq> Inr k) \<longrightarrow>
                input_qspec_map a' k = input_qspec_map a k)"
proof -
  let ?m0 = "annotate_outputs (output anchors) (map_option Plain (output_activation cfg)) model"
  from run obtain m1 m2 where
    s1: "annotate_inputs (inputs anchors) (map_option Plain (input_activation cfg)) ?m0 = Inr m1" and
    s2: "annotate_inputs (weights anchors) (map_option Plain (weight cfg)) m1 = Inr m2" and
    s3: "annotate_inputs (biases anchors) (map_option Plain (bias cfg)) m2 = Inr model'"
    by (rule assign_specs_steps)
  have args1: "args m1 = args model" using s1 by (simp add: annotate_inputs_args)
  have args2: "args m2 = args model" using s2 args1 by (simp add: annotate_inputs_args)
  from annotate_inputs_merge_basic [OF s1 a0] obtain a1 where a1:
    "quantization_annotation m1 n = Some a1" "output_qspec a1 = output_qspec a"
    "annotated a1 = annotated a" "dom (input_qspec_map a) \<subseteq> dom (input_qspec_map a1)"
    by blast
  from annotate_inputs_merge_basic [OF s2 a1(1)] obtain a2 where a2:
    "quantization_annotation m2 n = Some a2" "output_qspec a2 = output_qspec a1"
    "annotated a2 = annotated a1" "dom (input_qspec_map a1) \<subseteq> dom (input_qspec_map a2)"
    by blast
  from annotate_inputs_merge_basic [OF s3 a2(1)] obtain a3 where a3:
    "quantization_annotation model' n = Some a3" "output_qspec a3 = output_qspec a2"
    "annotated a3 = annotated a2" "dom (input_qspec_map a2) \<subseteq> dom (input_qspec_map a3)"
    by blast
  have "input_qspec_map a3 k = input_qspec_map a k"
    if u: "\<forall>idx v. (n, idx, v) \<in> set (chosen_specs cfg anchors) \<longrightarrow>
             getitem (args model n) idx \<noteq> Inr k" for k
  proof -
    from u have u1: "\<forall>idx v. (n, idx, v) \<in>
        set (bucket_writes (map_option Plain (input_activation cfg)) (inputs anchors)) \<longrightarrow>
        getitem (args ?m0 n) idx \<noteq> Inr k"
      by (simp add: chosen_specs_def)
    from u have u2: "\<forall>idx v. (n, idx, v) \<in>
        set (bucket_writes (map_option Plain (weight cfg)) (weights anchors)) \<longrightarrow>
        getitem (args m1 n) idx \<noteq> Inr k"
      unfolding args1 by (simp add: chosen_specs_def)
    from u have u3: "\<forall>idx v. (n, idx, v) \<in>
        set (bucket_writes (map_option Plain (bias cfg)) (biases anchors)) \<longrightarrow>
        getitem (args m2 n) idx \<noteq> Inr k"
      unfolding args2 by (simp add: chosen_specs_def)
    from annotate_inputs_unwritten [OF s1 a0 u1] a1(1)
    have e1: "input_qspec_map a1 k = input_qspec_map a k" by auto
    from annotate_inputs_unwritten [OF s2 a1(1) u2] a2(1)
    have e2: "input_qspec_map a2 k = input_qspec_map a1 k" by auto
    from annotate_inputs_unwritten [OF s3 a2(1) u3] a3(1)
    have e3: "input_qspec_map a3 k = input_qspec_map a2 k" by auto
    from e1 e2 e3 show ?thesis by simp
  qed
  with a1 a2 a3 show ?thesis by auto
qed

lemma assign_specs_rebound:
  assumes run: "assign_specs cfg anchors model = Inr model'"
    and w: "(n, idx, v) \<in> set (chosen_specs cfg anchors)"
    and k: "getitem (args model n) idx = Inr k"
  shows "\<exists>idx' v' a'. (n, idx', v') \<in> set (chosen_specs cfg anchors) \<and>
           getitem (args model n) idx' = Inr k \<and>
           quantization_annotation model' n = Some a' \<and> input_qspec_map a' k = Some v'"
proof -
  let ?m0 = "annotate_outputs (output anchors) (map_option Plain (output_activation cfg)) model"
  let ?wi = "bucket_writes (map_option Plain (input_activation cfg)) (inputs anchors)"
  let ?ww = "bucket_writes (map_option Plain (weight cfg)) (weights anchors)"
  let ?wb = "bucket_writes (map_option Plain (bias cfg)) (biases anchors)"
  let ?W = "\<lambda>ws. \<exists>idx v. (n, idx, v) \<in> set ws \<and> getitem (args model n) idx = Inr k"
  from run obtain m1 m2 where
    s1: "annotate_inputs (inputs anchors) (map_option Plain (input_activation cfg)) ?m0 = Inr m1" and
    s2: "annotate_inputs (weights anchors) (map_option Plain (weight cfg)) m1 = Inr m2" and
    s3: "annotate_inputs (biases anchors) (map_option Plain (bias cfg)) m2 = Inr model'"
    by (rule assign_specs_steps)
  have args0: "args ?m0 = args model" by simp
  have args1: "args m1 = args model" using s1 by (simp add: annotate_inputs_args)
  have args2: "args m2 = args model" using s2 args1 by (simp add: annotate_inputs_args)
  have sub: "set ?wi \<subseteq> set (chosen_specs cfg anchors)" "set ?ww \<subseteq> set (chosen_specs cfg anchors)"
    "set ?wb \<subseteq> set (chosen_specs cfg anchors)"
    by (auto simp: chosen_specs_def)
  from w k have some: "?W ?wi \<or> ?W ?ww \<or> ?W ?wb"
    by (auto simp: chosen_specs_def)
  show ?thesis
  proof (cases "?W ?wb")
    case True
    then obtain i c where "(n, i, c) \<in> set (biases anchors)" "getitem (args m2 n) i = Inr k"
      unfolding args2 by (auto simp: bucket_writes_iff)
    from annotate_inputs_rebound [OF s3 this] sub(3) show ?thesis
      unfolding args2 by blast
  next
    case nb: False
    then have u3: "\<forall>idx v. (n, idx, v) \<in> set ?wb \<longrightarrow> getitem (args m2 n) idx \<noteq> Inr k"
      unfolding args2 by blast
    show ?thesis
    proof (cases "?W ?ww")
      case True
      then obtain i c where "(n, i, c) \<in> set (weights anchors)" "getitem (args m1 n) i = Inr k"
        unfolding args1 by (auto simp: bucket_writes_iff)
      from annotate_inputs_rebound [OF s2 this] obtain idx' v' a2 where r:
        "(n, idx', v') \<in> set ?ww" "getitem (args model n) idx' = Inr k"
        "quantization_annotation m2 n = Some a2" "input_qspec_map a2 k = Some v'"
        unfolding args1 by blast
      from annotate_inputs_unwritten [OF s3 r(3) u3] r(4) obtain a3 where
        "quantization_annotation model' n = Some a3" "input_qspec_map a3 k = Some v'"
        by auto
      with r(1,2) sub(2) show ?thesis by blast
    next
      case nw: False
      then have u2: "\<forall>idx v. (n, idx, v) \<in> set ?ww \<longrightarrow> getitem (args m1 n) idx \<noteq> Inr k"
        unfolding args1 by blast
      from some nb nw have "?W ?wi" by blast
      then obtain i c where "(n, i, c) \<in> set (inputs anchors)" "getitem (args ?m0 n) i = Inr k"
        unfolding args0 by (auto simp: bucket_writes_iff)
      from annotate_inputs_rebound [OF s1 this] obtain idx' v' a1 where r:
        "(n, idx', v') \<in> set ?wi" "getitem (args model n) idx' = Inr k"
        "quantization_annotation m1 n = Some a1" "input_qspec_map a1 k = Some v'"
        unfolding args0 by blast
      from annotate_inputs_unwritten [OF s2 r(3) u2] r(4) obtain a2 where a2:
        "quantization_annotation m2 n = Some a2" "input_qspec_map a2 k = Some v'"
        by auto
      from annotate_inputs_unwritten [OF s3 a2(1) u3] a2(2) obtain a3 where
        "quantization_annotation model' n = Some a3" "input_qspec_map a3 k = Some v'"
        by auto
      with r(1,2) sub(1) show ?thesis by blast
    qed
  qed
qed

lemmas chain_defs = toy_chain_def

lemma annotate_partitions_append:
  "annotate_partitions env self (fps1 @ fps2) model =
   (case annotate_partitions env self fps1 model of
      Inl e \<Rightarrow> Inl e | Inr m \<Rightarrow> annotate_partitions env self fps2 m)"
  by (induction fps1 arbitrary: model) (simp_all split: sum.splits)

lemma all_flagged_annotated:
  "all_flagged model \<Longrightarrow> quantization_annotation model n \<noteq> None \<Longrightarrow> node_annotated model n"
  by (auto simp: all_flagged_def entry_flagged_def node_annotated_def split: option.splits)

lemma annotate_partitions_all_flagged:
  "annotate_partitions env self fps model = Inr model' \<Longrightarrow> all_flagged model \<Longrightarrow>
   all_flagged model'"
  unfolding all_flagged_def using annotate_partitions_flagged by blast

lemma annotate_all_all_flagged:
  "annotate_all env qs model = Inr model' \<Longrightarrow> all_flagged model \<Longrightarrow> all_flagged model'"
  unfolding all_flagged_def using annotate_all_flagged by blast

lemma rename_inputs_simps [simp]:
  "rename_inputs \<pi> [] = []"
  "rename_inputs \<pi> ((n, idx, cs) # xs) = (\<pi> n, idx, cs) # rename_inputs \<pi> xs"
  by (simp_all add: rename_inputs_def)

lemma rename_outputs_simps [simp]:
  "rename_outputs \<pi> [] = []"
  "rename_outputs \<pi> ((n, cs) # outs) = (\<pi> n, cs) # rename_outputs \<pi> outs"
  by (simp_all add: rename_outputs_def)

lemma rename_arg_inj: "inj \<pi> \<Longrightarrow> rename_arg \<pi> x = rename_arg \<pi> y \<longleftrightarrow> x = y"
  by (cases x; cases y) (auto dest: injD)

lemma rename_arg_node: "inj \<pi> \<Longrightarrow> rename_arg \<pi> x = Arg_node (\<pi> n) \<longleftrightarrow> x = Arg_node n"
  by (cases x) (auto dest: injD)

lemma getitem_map: "getitem (map f xs) idx = map_sum id f (getitem xs idx)"
  by (auto simp: getitem_def)

lemma same_annotation_fresh:
  "same_annotation \<pi> \<lparr>input_qspec_map = Map.empty, output_qspec = v, annotated = f\<rparr>
     \<lparr>input_qspec_map = Map.empty, output_qspec = v, annotated = f\<rparr>"
  by (simp add: same_annotation_def)

lemma same_annotation_bind:
  assumes "inj \<pi>" and "same_annotation \<pi> a b"
  shows "same_annotation \<pi> (a\<lparr>input_qspec_map := (input_qspec_map a)(k \<mapsto> v)\<rparr>)
           (b\<lparr>input_qspec_map := (input_qspec_map b)(rename_arg \<pi> k \<mapsto> v)\<rparr>)"
  using assms by (simp add: same_annotation_def rename_arg_inj)

lemma identical_update:
  assumes "inj \<pi>" and "structurally_identical \<pi> a b" and "same_annotation \<pi> x y"
  shows "structurally_identical \<pi>
           (a\<lparr>quantization_annotation := (quantization_annotation a)(n \<mapsto> x)\<rparr>)
           (b\<lparr>quantization_annotation := (quantization_annotation b)(\<pi> n \<mapsto> y)\<rparr>)"
  using assms by (auto simp: structurally_identical_def dest: injD)

lemma annotate_outputs_identical:
  assumes "inj \<pi>"
  shows "structurally_identical \<pi> a b \<Longrightarrow>
    structurally_identical \<pi> (annotate_outputs outs d a)
      (annotate_outputs (rename_outputs \<pi> outs) d b)"
proof (induction outs arbitrary: a b)
  case Nil
  then show ?case by simp
next
  case (Cons x outs)
  obtain out cs where x: "x = (out, cs)" by (cases x)
  have "structurally_identical \<pi>
      (a\<lparr>quantization_annotation := (quantization_annotation a)
          (out \<mapsto> \<lparr>input_qspec_map = Map.empty, output_qspec = choose_spec cs d,
                    annotated = True\<rparr>)\<rparr>)
      (b\<lparr>quantization_annotation := (quantization_annotation b)
          (\<pi> out \<mapsto> \<lparr>input_qspec_map = Map.empty, output_qspec = choose_spec cs d,
                      annotated = True\<rparr>)\<rparr>)"
    using assms Cons.prems same_annotation_fresh by (rule identical_update)
  from Cons.IH [OF this] show ?case
    by (simp add: x)
qed

lemma annotate_inputs_identical:
  assumes "inj \<pi>"
  shows "structurally_identical \<pi> a b \<Longrightarrow>
    rel_sum (=) (structurally_identical \<pi>) (annotate_inputs xs spec a)
      (annotate_inputs (rename_inputs \<pi> xs) spec b)"
proof (induction xs arbitrary: a b)
  case Nil
  then show ?case by simp
next
  case (Cons x xs)
  obtain n idx cs where x: "x = (n, idx, cs)" by (cases x)
  from Cons.prems have ar: "args b (\<pi> n) = map (rename_arg \<pi>) (args a n)"
    and an: "rel_option (same_annotation \<pi>)
      (quantization_annotation a n) (quantization_annotation b (\<pi> n))"
    by (simp_all add: structurally_identical_def)
  show ?case
  proof (cases "getitem (args a n) idx")
    case (Inl e)
    then show ?thesis by (simp add: x ar getitem_map Let_def)
  next
    case (Inr edge)
    define ann_a where "ann_a =
      (case quantization_annotation a n of
         None \<Rightarrow> \<lparr>input_qspec_map = Map.empty, output_qspec = None, annotated = True\<rparr>
       | Some v \<Rightarrow> v)"
    define ann_b where "ann_b =
      (case quantization_annotation b (\<pi> n) of
         None \<Rightarrow> \<lparr>input_qspec_map = Map.empty, output_qspec = None, annotated = True\<rparr>
       | Some v \<Rightarrow> v)"
    define a1 where "a1 = a\<lparr>quantization_annotation := (quantization_annotation a)
           (n \<mapsto> ann_a\<lparr>input_qspec_map :=
              (input_qspec_map ann_a)(edge \<mapsto> choose_spec cs spec)\<rparr>)\<rparr>"
    define b1 where "b1 = b\<lparr>quantization_annotation := (quantization_annotation b)
           (\<pi> n \<mapsto> ann_b\<lparr>input_qspec_map :=
              (input_qspec_map ann_b)(rename_arg \<pi> edge \<mapsto> choose_spec cs spec)\<rparr>)\<rparr>"
    have "same_annotation \<pi> ann_a ann_b"
      using an unfolding ann_a_def ann_b_def
      by (cases "quantization_annotation a n"; cases "quantization_annotation b (\<pi> n)")
        (simp_all add: same_annotation_fresh)
    then have "same_annotation \<pi>
        (ann_a\<lparr>input_qspec_map := (input_qspec_map ann_a)(edge \<mapsto> choose_spec cs spec)\<rparr>)
        (ann_b\<lparr>input_qspec_map := (input_qspec_map ann_b)
           (rename_arg \<pi> edge \<mapsto> choose_spec cs spec)\<rparr>)"
      using assms by (intro same_annotation_bind)
    with assms Cons.prems have si: "structurally_identical \<pi> a1 b1"
      unfolding a1_def b1_def by (intro identical_update)
    have ea: "annotate_inputs (x # xs) spec a = annotate_inputs xs spec a1"
      by (simp add: x Inr Let_def a1_def ann_a_def)
    have eb: "annotate_inputs (rename_inputs \<pi> (x # xs)) spec b =
        annotate_inputs (rename_inputs \<pi> xs) spec b1"
      by (simp add: x ar getitem_map Inr Let_def b1_def ann_b_def)
    show ?thesis unfolding ea eb using si by (rule Cons.IH)
  qed
qed

lemma rel_sum_bind:
  assumes "rel_sum (=) R x y" and "\<And>u v. R u v \<Longrightarrow> rel_sum (=) S (f u) (g v)"
  shows "rel_sum (=) S (case x of Inl e \<Rightarrow> Inl e | Inr u \<Rightarrow> f u)
           (case y of Inl e \<Rightarrow> Inl e | Inr v \<Rightarrow> g v)"
  using assms by (cases x; cases y) simp_all

lemma assign_specs_identical:
  assumes "inj \<pi>" and "structurally_identical \<pi> a b"
  shows "rel_sum (=) (structurally_identical \<pi>) (assign_specs cfg anchors a)
           (assign_specs cfg (rename_anchors \<pi> anchors) b)"
proof -
  let ?R = "structurally_identical \<pi>"
  have 0: "?R (annotate_outputs (output anchors) (map_option Plain (output_activation cfg)) a)
      (annotate_outputs (rename_outputs \<pi> (output anchors))
         (map_option Plain (output_activation cfg)) b)"
    using assms by (rule annotate_outputs_identical)
  show ?thesis
    unfolding assign_specs_def rename_anchors_def PartitionAnchors.simps
  proof (rule rel_sum_bind [where R = ?R])
    show "rel_sum (=) ?R
        (annotate_inputs (inputs anchors) (map_option Plain (input_activation cfg))
          (annotate_outputs (output anchors) (map_option Plain (output_activation cfg)) a))
        (annotate_inputs (rename_inputs \<pi> (inputs anchors))
          (map_option Plain (input_activation cfg))
          (annotate_outputs (rename_outputs \<pi> (output anchors))
            (map_option Plain (output_activation cfg)) b))"
      using assms(1) 0 by (rule annotate_inputs_identical)
  next
    fix u v
    assume uv: "?R u v"
    show "rel_sum (=) ?R
        (case annotate_inputs (weights anchors) (map_option Plain (weight cfg)) u of
           Inl e \<Rightarrow> Inl e
         | Inr m2 \<Rightarrow> annotate_inputs (biases anchors) (map_option Plain (bias cfg)) m2)
        (case annotate_inputs (rename_inputs \<pi> (weights anchors))
                (map_option Plain (weight cfg)) v of
           Inl e \<Rightarrow> Inl e
         | Inr m2 \<Rightarrow> annotate_inputs (rename_inputs \<pi> (biases anchors))
                        (map_option Plain (bias cfg)) m2)"
    proof (rule rel_sum_bind [where R = ?R])
      show "rel_sum (=) ?R
          (annotate_inputs (weights anchors) (map_option Plain (weight cfg)) u)
          (annotate_inputs (rename_inputs \<pi> (weights anchors)) (map_option Plain (weight cfg)) v)"
        using assms(1) uv by (rule annotate_inputs_identical)
    next
      fix u' v'
      assume "?R u' v'"
      with assms(1) show "rel_sum (=) ?R
          (annotate_inputs (biases anchors) (map_option Plain (bias cfg)) u')
          (annotate_inputs (rename_inputs \<pi> (biases anchors)) (map_option Plain (bias cfg)) v')"
        by (rule annotate_inputs_identical)
    qed
  qed
qed

lemma users_identical:
  assumes "inj \<pi>" and "structurally_identical \<pi> a b"
  shows "users b (\<pi> n) = map \<pi> (users a n)"
proof -
  from assms(2) have nb: "nodes b = map \<pi> (nodes a)"
    and ar: "\<And>m. args b (\<pi> m) = map (rename_arg \<pi>) (args a m)"
    by (simp_all add: structurally_identical_def)
  have "Arg_node (\<pi> n) \<in> set (args b (\<pi> m)) \<longleftrightarrow> Arg_node n \<in> set (args a m)" for m
  proof
    assume "Arg_node (\<pi> n) \<in> set (args b (\<pi> m))"
    then obtain x where x: "x \<in> set (args a m)" "rename_arg \<pi> x = Arg_node (\<pi> n)"
      unfolding ar by auto
    from x(2) have "x = Arg_node n" by (simp add: rename_arg_node [OF assms(1)])
    with x(1) show "Arg_node n \<in> set (args a m)" by simp
  next
    assume "Arg_node n \<in> set (args a m)"
    then have "rename_arg \<pi> (Arg_node n) \<in> rename_arg \<pi> ` set (args a m)" by (rule imageI)
    then show "Arg_node (\<pi> n) \<in> set (args b (\<pi> m))" unfolding ar by simp
  qed
  then show ?thesis
    by (simp add: users_def nb filter_map comp_def)
qed

lemma no_outside_users_identical:
  assumes "inj \<pi>" and "structurally_identical \<pi> a b"
  shows "no_outside_users b (rename_partition \<pi> fp) = no_outside_users a fp"
  using assms(1)
  by (auto simp: no_outside_users_def rename_partition_def list_all_iff
      users_identical [OF assms] dest: injD)

lemma node_annotated_identical:
  assumes "structurally_identical \<pi> a b"
  shows "node_annotated b (\<pi> n) = node_annotated a n"
proof -
  from assms have "rel_option (same_annotation \<pi>)
      (quantization_annotation a n) (quantization_annotation b (\<pi> n))"
    by (simp add: structurally_identical_def)
  then show ?thesis
    by (cases "quantization_annotation a n"; cases "quantization_annotation b (\<pi> n)")
      (simp_all add: node_annotated_def same_annotation_def)
qed

lemma is_annotated_identical:
  assumes "structurally_identical \<pi> a b"
  shows "is_annotated b (map \<pi> ns) = is_annotated a ns"
  by (simp add: is_annotated_def list_ex_iff node_annotated_identical [OF assms])

lemma anchor_nodes_rename:
  "anchor_nodes (rename_anchors \<pi> anchors) = map \<pi> (anchor_nodes anchors)"
  by (simp add: anchor_nodes_def rename_anchors_def rename_inputs_def rename_outputs_def
      comp_def case_prod_beta)

lemma structurally_identical_refl_result:
  "structurally_identical \<pi> a b \<Longrightarrow> rel_sum (=) (structurally_identical \<pi>) (Inr a) (Inr b)"
  by simp

lemma annotate_partition_identical:
  assumes "inj \<pi>" and "structurally_identical \<pi> a b"
    and "get_anchors env (pattern self) b (rename_partition \<pi> fp) =
           map_option (rename_anchors \<pi>) (get_anchors env (pattern self) a fp)"
  shows "rel_sum (=) (structurally_identical \<pi>) (annotate_partition env self fp a)
           (annotate_partition env self (rename_partition \<pi> fp) b)"
proof (cases "get_anchors env (pattern self) a fp")
  case None
  with assms show ?thesis
    by (simp add: annotate_partition_def no_outside_users_identical)
next
  case (Some anchors)
  with assms(3) have g: "get_anchors env (pattern self) b (rename_partition \<pi> fp) =
      Some (rename_anchors \<pi> anchors)" by simp
  show ?thesis
    unfolding annotate_partition_def Some g option.case
      no_outside_users_identical [OF assms(1,2)] anchor_nodes_rename
      is_annotated_identical [OF assms(2)]
    using assms(2) assign_specs_identical [OF assms(1,2)]
    by simp
qed

lemma annotate_partitions_identical:
  assumes "inj \<pi>" and "respects_renaming env \<pi>"
  shows "structurally_identical \<pi> a b \<Longrightarrow>
    rel_sum (=) (structurally_identical \<pi>) (annotate_partitions env self fps a)
      (annotate_partitions env self (map (rename_partition \<pi>) fps) b)"
proof (induction fps arbitrary: a b)
  case Nil
  then show ?case by simp
next
  case (Cons fp fps)
  from assms(2) Cons.prems have
    "get_anchors env (pattern self) b (rename_partition \<pi> fp) =
       map_option (rename_anchors \<pi>) (get_anchors env (pattern self) a fp)"
    by (simp add: respects_renaming_def)
  with assms(1) Cons.prems have
    "rel_sum (=) (structurally_identical \<pi>) (annotate_partition env self fp a)
       (annotate_partition env self (rename_partition \<pi> fp) b)"
    by (rule annotate_partition_identical)
  then show ?case
    unfolding list.map annotate_partitions.simps
    by (rule rel_sum_bind [where R = "structurally_identical \<pi>"]) (rule Cons.IH)
qed

lemma annotate_identical:
  assumes "inj \<pi>" and "respects_renaming env \<pi>" and "structurally_identical \<pi> a b"
  shows "rel_sum (=) (structurally_identical \<pi>) (annotate env self a) (annotate env self b)"
proof -
  from assms(2,3) have "find_sequential_partitions_aten env b (partition_types env (pattern self)) =
      map (rename_partition \<pi>)
        (find_sequential_partitions_aten env a (partition_types env (pattern self)))"
    by (simp add: respects_renaming_def)
  then show ?thesis
    unfolding annotate_def using annotate_partitions_identical [OF assms] by simp
qed

lemma annotate_all_identical:
  assumes "inj \<pi>" and "respects_renaming env \<pi>"
  shows "structurally_identical \<pi> a b \<Longrightarrow>
    rel_sum (=) (structurally_identical \<pi>) (annotate_all env qs a) (annotate_all env qs b)"
proof (induction qs arbitrary: a b)
  case Nil
  then show ?case by simp
next
  case (Cons q qs)
  from assms Cons.prems have
    "rel_sum (=) (structurally_identical \<pi>) (annotate env q a) (annotate env q b)"
    by (rule annotate_identical)
  then show ?case
    unfolding annotate_all.simps
    by (rule rel_sum_bind [where R = "structurally_identical \<pi>"]) (rule Cons.IH)
qed

lemma arg_node_mem_identical:
  assumes "inj \<pi>" and "structurally_identical \<pi> a b"
  shows "Arg_node (\<pi> n) \<in> set (args b (\<pi> m)) \<longleftrightarrow> Arg_node n \<in> set (args a m)"
proof -
  from assms(2) have ar: "args b (\<pi> m) = map (rename_arg \<pi>) (args a m)"
    by (simp add: structurally_identical_def)
  show ?thesis
  proof
    assume "Arg_node (\<pi> n) \<in> set (args b (\<pi> m))"
    then obtain x where x: "x \<in> set (args a m)" "rename_arg \<pi> x = Arg_node (\<pi> n)"
      unfolding ar by auto
    from x(2) have "x = Arg_node n" by (simp add: rename_arg_node [OF assms(1)])
    with x(1) show "Arg_node n \<in> set (args a m)" by simp
  next
    assume "Arg_node n \<in> set (args a m)"
    then have "rename_arg \<pi> (Arg_node n) \<in> rename_arg \<pi> ` set (args a m)" by (rule imageI)
    then show "Arg_node (\<pi> n) \<in> set (args b (\<pi> m))" unfolding ar by simp
  qed
qed

lemma toy_find_renaming:
  assumes "inj \<pi>" and "structurally_identical \<pi> a b"
  shows "toy_find b types = map (rename_partition \<pi>) (toy_find a types)"
proof -
  from assms(2) have nb: "nodes b = map \<pi> (nodes a)"
    and tg: "\<And>n. target b (\<pi> n) = target a n"
    by (simp_all add: structurally_identical_def)
  note mem = arg_node_mem_identical [OF assms]
  show ?thesis
  proof (cases types)
    case Nil
    then show ?thesis by (simp add: toy_find_def)
  next
    case (Cons t ts)
    show ?thesis
    proof (cases ts)
      case Nil
      with Cons show ?thesis
        by (simp add: toy_find_def nb filter_map comp_def tg rename_partition_def)
    next
      case c2: (Cons t2 ts2)
      show ?thesis
      proof (cases ts2)
        case Nil
        with Cons c2 show ?thesis
          by (simp add: toy_find_def nb filter_map comp_def tg mem rename_partition_def
              map_concat)
      next
        case (Cons t3 ts3)
        with \<open>types = t # ts\<close> c2 show ?thesis by (simp add: toy_find_def)
      qed
    qed
  qed
qed

lemma toy_anchors_renaming:
  assumes "structurally_identical \<pi> a b"
  shows "toy_anchors p b (rename_partition \<pi> fp) =
           map_option (rename_anchors \<pi>) (toy_anchors p a fp)"
proof -
  from assms have ar: "\<And>n. args b (\<pi> n) = map (rename_arg \<pi>) (args a n)"
    by (simp add: structurally_identical_def)
  show ?thesis
    by (cases "part_nodes fp"; cases p)
      (simp_all add: toy_anchors_def rename_partition_def rename_anchors_def ar)
qed

lemma toy_env_respects_renaming: "inj \<pi> \<Longrightarrow> respects_renaming toy_env \<pi>"
  by (simp add: respects_renaming_def toy_env_def toy_find_renaming toy_anchors_renaming)

lemma toy_mirror_bij: "bij toy_mirror"
  by (rule involuntory_imp_bij) (auto simp: toy_mirror_def)

lemma toy_graphs_identical: "structurally_identical toy_mirror toy_graph toy_graph_mirrored"
  by (auto simp: structurally_identical_def toy_mirror_def toy_graph_def toy_graph_mirrored_def)

section \<open>Properties\<close>

text \<open>
  C1 (as amended). A write for an input, weight or bias anchor merges into the entry the
  node holds at that moment: the entry keeps its output spec and its flag, every edge
  bound in its input map stays bound, the binding of every edge that the bucket does not
  write is unchanged, and the edge that is written ends bound to the spec chosen by an
  anchor of the bucket that writes it. Across the whole spec assignment of a partition
  the same holds for every node that is not one of its output anchors. A write for an
  output anchor does not merge: the node's entry becomes a fresh one, with an empty input
  map, the chosen output spec and the flag set, whatever the node held before; at the end
  of the spec assignment an output anchor has the flag set, the chosen output spec, and no
  binding for any edge that the partition does not write.
\<close>

theorem input_writes_merge_output_writes_replace:
  "(annotate_inputs xs spec model = Inr model' \<and> quantization_annotation model n = Some a \<longrightarrow>
      (\<exists>a'. quantization_annotation model' n = Some a' \<and>
            output_qspec a' = output_qspec a \<and> annotated a' = annotated a \<and>
            dom (input_qspec_map a) \<subseteq> dom (input_qspec_map a') \<and>
            (\<forall>k. (\<forall>idx cs. (n, idx, cs) \<in> set xs \<longrightarrow> getitem (args model n) idx \<noteq> Inr k) \<longrightarrow>
                 input_qspec_map a' k = input_qspec_map a k))) \<and>
   (annotate_inputs xs spec model = Inr model' \<and> (n, idx, cs) \<in> set xs \<longrightarrow>
      (\<exists>k idx' v a'. getitem (args model n) idx = Inr k \<and>
            (n, idx', v) \<in> set (bucket_writes spec xs) \<and>
            getitem (args model n) idx' = Inr k \<and>
            quantization_annotation model' n = Some a' \<and> input_qspec_map a' k = Some v)) \<and>
   ((n, c) \<in> set outs \<longrightarrow>
      (\<exists>c'. (n, c') \<in> set outs \<and>
         quantization_annotation (annotate_outputs outs d model) n =
           Some \<lparr>input_qspec_map = Map.empty, output_qspec = choose_spec c' d,
                 annotated = True\<rparr>)) \<and>
   (assign_specs cfg anchors model = Inr model'' \<and> quantization_annotation model n = Some a \<and>
    n \<notin> fst ` set (output anchors) \<longrightarrow>
      (\<exists>a'. quantization_annotation model'' n = Some a' \<and>
            output_qspec a' = output_qspec a \<and> annotated a' = annotated a \<and>
            dom (input_qspec_map a) \<subseteq> dom (input_qspec_map a') \<and>
            (\<forall>k. (\<forall>idx v. (n, idx, v) \<in> set (chosen_specs cfg anchors) \<longrightarrow>
                     getitem (args model n) idx \<noteq> Inr k) \<longrightarrow>
                 input_qspec_map a' k = input_qspec_map a k))) \<and>
   (assign_specs cfg anchors model = Inr model'' \<and> (n, c) \<in> set (output anchors) \<longrightarrow>
      (\<exists>a' c'. quantization_annotation model'' n = Some a' \<and> annotated a' \<and>
            (n, c') \<in> set (output anchors) \<and>
            output_qspec a' = choose_spec c' (map_option Plain (output_activation cfg)) \<and>
            (\<forall>k. (\<forall>idx v. (n, idx, v) \<in> set (chosen_specs cfg anchors) \<longrightarrow>
                     getitem (args model n) idx \<noteq> Inr k) \<longrightarrow>
                 input_qspec_map a' k = None))) \<and>
   (assign_specs cfg anchors model = Inr model'' \<and>
    (n, idx, w) \<in> set (chosen_specs cfg anchors) \<and> getitem (args model n) idx = Inr e \<longrightarrow>
      (\<exists>idx' w' a'. (n, idx', w') \<in> set (chosen_specs cfg anchors) \<and>
            getitem (args model n) idx' = Inr e \<and>
            quantization_annotation model'' n = Some a' \<and> input_qspec_map a' e = Some w'))"
proof (intro conjI impI)
  assume "annotate_inputs xs spec model = Inr model' \<and> quantization_annotation model n = Some a"
  then show "\<exists>a'. quantization_annotation model' n = Some a' \<and>
            output_qspec a' = output_qspec a \<and> annotated a' = annotated a \<and>
            dom (input_qspec_map a) \<subseteq> dom (input_qspec_map a') \<and>
            (\<forall>k. (\<forall>idx cs. (n, idx, cs) \<in> set xs \<longrightarrow> getitem (args model n) idx \<noteq> Inr k) \<longrightarrow>
                 input_qspec_map a' k = input_qspec_map a k)"
    using annotate_inputs_merge by blast
next
  assume h: "annotate_inputs xs spec model = Inr model' \<and> (n, idx, cs) \<in> set xs"
  then obtain k where k: "getitem (args model n) idx = Inr k"
    using annotate_inputs_index by blast
  from h k annotate_inputs_rebound [of xs spec model model' n idx cs k]
  show "\<exists>k idx' v a'. getitem (args model n) idx = Inr k \<and>
            (n, idx', v) \<in> set (bucket_writes spec xs) \<and>
            getitem (args model n) idx' = Inr k \<and>
            quantization_annotation model' n = Some a' \<and> input_qspec_map a' k = Some v"
    by blast
next
  assume "(n, c) \<in> set outs"
  then show "\<exists>c'. (n, c') \<in> set outs \<and>
         quantization_annotation (annotate_outputs outs d model) n =
           Some \<lparr>input_qspec_map = Map.empty, output_qspec = choose_spec c' d,
                 annotated = True\<rparr>"
    by (rule annotate_outputs_fresh)
next
  assume h: "assign_specs cfg anchors model = Inr model'' \<and>
    quantization_annotation model n = Some a \<and> n \<notin> fst ` set (output anchors)"
  then have "quantization_annotation
      (annotate_outputs (output anchors) (map_option Plain (output_activation cfg)) model) n =
      Some a"
    using annotate_outputs_other by simp
  with h show "\<exists>a'. quantization_annotation model'' n = Some a' \<and>
            output_qspec a' = output_qspec a \<and> annotated a' = annotated a \<and>
            dom (input_qspec_map a) \<subseteq> dom (input_qspec_map a') \<and>
            (\<forall>k. (\<forall>idx v. (n, idx, v) \<in> set (chosen_specs cfg anchors) \<longrightarrow>
                     getitem (args model n) idx \<noteq> Inr k) \<longrightarrow>
                 input_qspec_map a' k = input_qspec_map a k)"
    using assign_specs_after_outputs by blast
next
  assume h: "assign_specs cfg anchors model = Inr model'' \<and> (n, c) \<in> set (output anchors)"
  then obtain c' where c': "(n, c') \<in> set (output anchors)"
    and a0: "quantization_annotation
        (annotate_outputs (output anchors) (map_option Plain (output_activation cfg)) model) n =
      Some \<lparr>input_qspec_map = Map.empty,
            output_qspec = choose_spec c' (map_option Plain (output_activation cfg)),
            annotated = True\<rparr>"
    using annotate_outputs_fresh by blast
  from h have run: "assign_specs cfg anchors model = Inr model''" by simp
  from assign_specs_after_outputs [OF run a0] c'
  show "\<exists>a' c'. quantization_annotation model'' n = Some a' \<and> annotated a' \<and>
            (n, c') \<in> set (output anchors) \<and>
            output_qspec a' = choose_spec c' (map_option Plain (output_activation cfg)) \<and>
            (\<forall>k. (\<forall>idx v. (n, idx, v) \<in> set (chosen_specs cfg anchors) \<longrightarrow>
                     getitem (args model n) idx \<noteq> Inr k) \<longrightarrow>
                 input_qspec_map a' k = None)"
    by auto
next
  assume "assign_specs cfg anchors model = Inr model'' \<and>
    (n, idx, w) \<in> set (chosen_specs cfg anchors) \<and> getitem (args model n) idx = Inr e"
  then show "\<exists>idx' w' a'. (n, idx', w') \<in> set (chosen_specs cfg anchors) \<and>
            getitem (args model n) idx' = Inr e \<and>
            quantization_annotation model'' n = Some a' \<and> input_qspec_map a' e = Some w'"
    using assign_specs_rebound by blast
qed

theorem input_writes_merge_output_writes_replace_witness:
  "quantization_annotation
     (annotate_outputs [(3, [])] (Some (Plain act_qspec)) toy_graph) 3 =
     Some \<lparr>input_qspec_map = Map.empty, output_qspec = Some (Plain act_qspec),
           annotated = True\<rparr> \<and>
   (\<exists>m a'. annotate_inputs [(3, 0, [])] (Some (Plain act_qspec))
              (annotate_outputs [(3, [])] (Some (Plain act_qspec)) toy_graph) = Inr m \<and>
        quantization_annotation m 3 = Some a' \<and>
        output_qspec a' = Some (Plain act_qspec) \<and> annotated a' \<and>
        input_qspec_map a' (Arg_node 0) = Some (Some (Plain act_qspec)) \<and>
        input_qspec_map a' (Arg_node 1) = None) \<and>
   quantization_annotation toy_chain_unflagged 3 =
     Some \<lparr>input_qspec_map = Map.empty, output_qspec = None, annotated = False\<rparr> \<and>
   (\<exists>m a'. assign_specs default_qconfig
              \<lparr>inputs = [(3, 0, [])], weights = [(3, 1, [])], biases = [(3, 2, [])],
               output = [(4, [])]\<rparr> toy_chain_unflagged = Inr m \<and>
        quantization_annotation m 3 = Some a' \<and>
        output_qspec a' = None \<and> annotated a' = False \<and>
        input_qspec_map a' (Arg_node 4) = None \<and>
        input_qspec_map a' (Arg_node 1) = Some (Some (Plain wgt_qspec))) \<and>
   (\<exists>m a'. assign_specs default_qconfig
              \<lparr>inputs = [(3, 0, [])], weights = [(3, 1, [])], biases = [(3, 2, [])],
               output = [(4, [])]\<rparr> toy_chain = Inr m \<and>
        quantization_annotation m 4 = Some a' \<and> annotated a' \<and>
        output_qspec a' = Some (Plain act_qspec) \<and>
        input_qspec_map a' (Arg_node 3) = None)"
proof -
  let ?d = "Some (Plain act_qspec)"
  let ?m0 = "annotate_outputs [(3, [])] ?d toy_graph"
  let ?a = "\<lparr>input_qspec_map = Map.empty, output_qspec = ?d, annotated = True\<rparr>"
  let ?xs = "[(3::node, 0::int, [] :: QuantizationSpecBase option list)]"
  let ?m1 = "projr (annotate_inputs ?xs ?d ?m0)"
  let ?an = "\<lparr>inputs = [(3, 0, [])], weights = [(3, 1, [])], biases = [(3, 2, [])],
               output = [(4, [])]\<rparr>"
  let ?u = "\<lparr>input_qspec_map = Map.empty, output_qspec = None, annotated = False\<rparr>"
  let ?r3 = "projr (assign_specs default_qconfig ?an toy_chain_unflagged)"
  let ?r4 = "projr (assign_specs default_qconfig ?an toy_chain)"
  note A = input_writes_merge_output_writes_replace
    [of ?xs ?d ?m0 ?m1 3 ?a 0 "[]" "[]" "[(3, [])]" ?d]
  note O = input_writes_merge_output_writes_replace
    [of _ _ toy_graph _ 3 _ _ _ "[]" "[(3, [])]" ?d]
  note B = input_writes_merge_output_writes_replace
    [of _ _ toy_chain_unflagged _ 3 ?u _ _ _ _ _ default_qconfig ?an ?r3]
  have o: "(3, []) \<in> set [(3::node, [] :: QuantizationSpecBase option list)]" by simp
  from O o have h2: "quantization_annotation ?m0 3 = Some ?a"
    by (simp add: choose_spec_def)
  have h1: "annotate_inputs ?xs ?d ?m0 = Inr ?m1" by (simp add: toy_defs)
  have mem: "(3, 0, []) \<in> set ?xs" by simp
  have k0: "getitem (args ?m0 3) 0 = Inr (Arg_node 0)" by (simp add: toy_defs)
  have nk: "\<forall>idx cs. (3, idx, cs) \<in> set ?xs \<longrightarrow> getitem (args ?m0 3) idx \<noteq> Inr (Arg_node 1)"
    by (simp add: toy_defs)
  from A h1 h2 obtain a' where a':
    "quantization_annotation ?m1 3 = Some a'" "output_qspec a' = output_qspec ?a"
    "annotated a' = annotated ?a"
    "\<forall>k. (\<forall>idx cs. (3, idx, cs) \<in> set ?xs \<longrightarrow> getitem (args ?m0 3) idx \<noteq> Inr k) \<longrightarrow>
       input_qspec_map a' k = input_qspec_map ?a k"
    by blast
  from a'(4) nk have u1: "input_qspec_map a' (Arg_node 1) = None" by auto
  from A h1 mem obtain k idx' v a'' where r:
    "getitem (args ?m0 3) 0 = Inr k" "(3, idx', v) \<in> set (bucket_writes ?d ?xs)"
    "quantization_annotation ?m1 3 = Some a''" "input_qspec_map a'' k = Some v"
    by blast
  from r(1) k0 have "k = Arg_node 0" by simp
  moreover from r(2) have "v = ?d" by (simp add: bucket_writes_def choose_spec_def)
  moreover from r(3) a'(1) have "a'' = a'" by simp
  ultimately have b0: "input_qspec_map a' (Arg_node 0) = Some ?d" using r(4) by simp
  have p1: "\<exists>m a'. annotate_inputs ?xs ?d ?m0 = Inr m \<and>
        quantization_annotation m 3 = Some a' \<and>
        output_qspec a' = ?d \<and> annotated a' \<and>
        input_qspec_map a' (Arg_node 0) = Some ?d \<and>
        input_qspec_map a' (Arg_node 1) = None"
    using h1 a'(1-3) b0 u1 by auto
  have g3: "quantization_annotation toy_chain_unflagged 3 = Some ?u"
    by (simp add: toy_chain_unflagged_def)
  have run3: "assign_specs default_qconfig ?an toy_chain_unflagged = Inr ?r3"
    by (simp add: toy_defs chain_defs toy_chain_unflagged_def)
  have no3: "3 \<notin> fst ` set (output ?an)" by simp
  have cs: "chosen_specs default_qconfig ?an =
      [(3, 0, Some (Plain act_qspec)), (3, 1, Some (Plain wgt_qspec)), (3, 2, None)]"
    by (simp add: chosen_specs_def bucket_writes_def toy_defs)
  have un3: "\<forall>idx v. (3, idx, v) \<in> set (chosen_specs default_qconfig ?an) \<longrightarrow>
      getitem (args toy_chain_unflagged 3) idx \<noteq> Inr (Arg_node 4)"
    unfolding cs by (auto simp: toy_defs chain_defs toy_chain_unflagged_def)
  from B run3 g3 no3 obtain b' where b':
    "quantization_annotation ?r3 3 = Some b'" "output_qspec b' = output_qspec ?u"
    "annotated b' = annotated ?u"
    "\<forall>k. (\<forall>idx v. (3, idx, v) \<in> set (chosen_specs default_qconfig ?an) \<longrightarrow>
           getitem (args toy_chain_unflagged 3) idx \<noteq> Inr k) \<longrightarrow>
         input_qspec_map b' k = input_qspec_map ?u k"
    by blast
  from b'(4) un3 have u4: "input_qspec_map b' (Arg_node 4) = None" by auto
  have w1: "(3, 1, Some (Plain wgt_qspec)) \<in> set (chosen_specs default_qconfig ?an)"
    unfolding cs by simp
  have k1: "getitem (args toy_chain_unflagged 3) 1 = Inr (Arg_node 1)"
    by (simp add: toy_defs chain_defs toy_chain_unflagged_def)
  note B2 = input_writes_merge_output_writes_replace
    [where model = toy_chain_unflagged and n = 3 and idx = 1 and cfg = default_qconfig
       and anchors = ?an and model'' = ?r3 and w = "Some (Plain wgt_qspec)"
       and e = "Arg_node 1",
     THEN conjunct2, THEN conjunct2, THEN conjunct2, THEN conjunct2, THEN conjunct2,
     THEN mp, OF conjI [OF run3 conjI [OF w1 k1]]]
  from B2 obtain i1 v1 b'' where rb:
    "(3, i1, v1) \<in> set (chosen_specs default_qconfig ?an)"
    "getitem (args toy_chain_unflagged 3) i1 = Inr (Arg_node 1)"
    "quantization_annotation ?r3 3 = Some b''" "input_qspec_map b'' (Arg_node 1) = Some v1"
    by blast
  from rb(1,2) have "v1 = Some (Plain wgt_qspec)"
    unfolding cs by (auto simp: toy_defs chain_defs toy_chain_unflagged_def)
  moreover from rb(3) b'(1) have "b'' = b'" by simp
  ultimately have r1: "input_qspec_map b' (Arg_node 1) = Some (Some (Plain wgt_qspec))"
    using rb(4) by simp
  with u4 run3 b'(1-3) have p3: "\<exists>m a'. assign_specs default_qconfig ?an toy_chain_unflagged = Inr m \<and>
        quantization_annotation m 3 = Some a' \<and>
        output_qspec a' = None \<and> annotated a' = False \<and>
        input_qspec_map a' (Arg_node 4) = None \<and>
        input_qspec_map a' (Arg_node 1) = Some (Some (Plain wgt_qspec))"
    by auto
  have run4: "assign_specs default_qconfig ?an toy_chain = Inr ?r4"
    by (simp add: toy_defs chain_defs)
  have o4: "(4, []) \<in> set (output ?an)" by simp
  have un4: "\<forall>idx v. (4, idx, v) \<in> set (chosen_specs default_qconfig ?an) \<longrightarrow>
      getitem (args toy_chain 4) idx \<noteq> Inr (Arg_node 3)"
    unfolding cs by simp
  note C = input_writes_merge_output_writes_replace
    [where model = toy_chain and n = 4 and c = "[]" and cfg = default_qconfig
       and anchors = ?an and model'' = ?r4,
     THEN conjunct2, THEN conjunct2, THEN conjunct2, THEN conjunct2, THEN conjunct1,
     THEN mp, OF conjI [OF run4 o4]]
  from C obtain c' cc where c':
    "quantization_annotation ?r4 4 = Some c'" "annotated c'"
    "(4, cc) \<in> set (output ?an)"
    "output_qspec c' = choose_spec cc (map_option Plain (output_activation default_qconfig))"
    "\<forall>k. (\<forall>idx v. (4, idx, v) \<in> set (chosen_specs default_qconfig ?an) \<longrightarrow>
           getitem (args toy_chain 4) idx \<noteq> Inr k) \<longrightarrow>
         input_qspec_map c' k = None"
    by blast
  from c'(5) un4 have l4: "input_qspec_map c' (Arg_node 3) = None" by blast
  from c'(3,4) have "output_qspec c' = ?d" by (simp add: toy_defs)
  with run4 c'(1,2) l4 have p4: "\<exists>m a'. assign_specs default_qconfig ?an toy_chain = Inr m \<and>
        quantization_annotation m 4 = Some a' \<and> annotated a' \<and>
        output_qspec a' = ?d \<and> input_qspec_map a' (Arg_node 3) = None"
    by auto
  from h2 p1 g3 p3 p4 show ?thesis by blast
qed

text \<open>The claim as first stated fails. The relu node enters with a default entry (nothing
  bound, flag clear). The relu/add annotator, for which the relu is an input anchor,
  merges the binding of the relu's input edge into that entry. The convolution/relu
  partition of the next annotator is accepted, the relu is its output anchor, and after
  the pass the relu's entry is a fresh one: the binding recorded by the first annotator is
  gone.\<close>

theorem output_write_discards_entry_counterexample:
  "quantization_annotation toy_tail_unflagged 4 =
     Some \<lparr>input_qspec_map = Map.empty, output_qspec = None, annotated = False\<rparr> \<and>
   \<not> isl (annotate_all toy_env [toy_quantizer Toy_relu_add] toy_tail_unflagged) \<and>
   quantization_annotation
     (projr (annotate_all toy_env [toy_quantizer Toy_relu_add] toy_tail_unflagged)) 4 =
     Some \<lparr>input_qspec_map = [Arg_node 3 \<mapsto> Some (Plain act_qspec)], output_qspec = None,
           annotated = False\<rparr> \<and>
   find_sequential_partitions_aten toy_env
     (projr (annotate_all toy_env [toy_quantizer Toy_relu_add] toy_tail_unflagged))
     (partition_types toy_env (pattern (toy_quantizer Toy_conv_relu))) =
     [\<lparr>part_nodes = [3, 4], part_output = 4\<rparr>] \<and>
   no_outside_users
     (projr (annotate_all toy_env [toy_quantizer Toy_relu_add] toy_tail_unflagged))
     \<lparr>part_nodes = [3, 4], part_output = 4\<rparr> \<and>
   get_anchors toy_env Toy_conv_relu
     (projr (annotate_all toy_env [toy_quantizer Toy_relu_add] toy_tail_unflagged))
     \<lparr>part_nodes = [3, 4], part_output = 4\<rparr> =
     Some \<lparr>inputs = [(3, 0, [])], weights = [(3, 1, [])], biases = [(3, 2, [])],
           output = [(4, [])]\<rparr> \<and>
   \<not> is_annotated
     (projr (annotate_all toy_env [toy_quantizer Toy_relu_add] toy_tail_unflagged))
     [3, 3, 3, 4] \<and>
   \<not> isl (annotate_all toy_env [toy_quantizer Toy_relu_add, toy_quantizer Toy_conv_relu]
            toy_tail_unflagged) \<and>
   quantization_annotation
     (projr (annotate_all toy_env [toy_quantizer Toy_relu_add, toy_quantizer Toy_conv_relu]
        toy_tail_unflagged)) 4 =
     Some \<lparr>input_qspec_map = Map.empty, output_qspec = Some (Plain act_qspec),
           annotated = True\<rparr>"
  by (simp add: toy_defs toy_tail_unflagged_def)

text \<open>
  C2 (as amended). On a graph that enters the pass without an entry whose flag is clear
  (an unannotated graph, for one), this stays so after every partition's turn and every
  annotator; a partition one of whose anchor nodes (in any bucket) already holds an entry
  is rejected and the graph is left exactly as it was; and the entry a node holds after a
  prefix of the partition list, or of the annotator list, is still that node's entry
  after the rest has run: the first match wins.
\<close>

theorem first_match_wins:
  "(all_flagged model \<and> get_anchors env (pattern self) model fp = Some anchors \<and>
    n \<in> set (anchor_nodes anchors) \<and> quantization_annotation model n \<noteq> None \<longrightarrow>
      annotate_partition env self fp model = Inr model) \<and>
   (all_flagged model \<and> annotate_partitions env self fps1 model = Inr m1 \<longrightarrow>
      all_flagged m1) \<and>
   (all_flagged model \<and> annotate_all env qs1 model = Inr m2 \<longrightarrow> all_flagged m2) \<and>
   (all_flagged model \<and> annotate_partitions env self fps1 model = Inr m1 \<and>
    annotate_partitions env self (fps1 @ fps2) model = Inr model' \<and>
    quantization_annotation m1 n \<noteq> None \<longrightarrow>
      quantization_annotation model' n = quantization_annotation m1 n) \<and>
   (all_flagged model \<and> annotate_all env qs1 model = Inr m2 \<and>
    annotate_all env (qs1 @ qs2) model = Inr model'' \<and>
    quantization_annotation m2 n \<noteq> None \<longrightarrow>
      quantization_annotation model'' n = quantization_annotation m2 n)"
proof (intro conjI impI)
  assume h: "all_flagged model \<and> get_anchors env (pattern self) model fp = Some anchors \<and>
    n \<in> set (anchor_nodes anchors) \<and> quantization_annotation model n \<noteq> None"
  then have "node_annotated model n" using all_flagged_annotated by blast
  with h show "annotate_partition env self fp model = Inr model"
    using annotate_partition_rejects_annotated by blast
next
  assume "all_flagged model \<and> annotate_partitions env self fps1 model = Inr m1"
  then show "all_flagged m1" using annotate_partitions_all_flagged by blast
next
  assume "all_flagged model \<and> annotate_all env qs1 model = Inr m2"
  then show "all_flagged m2" using annotate_all_all_flagged by blast
next
  assume h: "all_flagged model \<and> annotate_partitions env self fps1 model = Inr m1 \<and>
    annotate_partitions env self (fps1 @ fps2) model = Inr model' \<and>
    quantization_annotation m1 n \<noteq> None"
  then have "all_flagged m1" using annotate_partitions_all_flagged by blast
  with h have a: "node_annotated m1 n" using all_flagged_annotated by blast
  from h have "annotate_partitions env self fps2 m1 = Inr model'"
    by (auto simp: annotate_partitions_append)
  then show "quantization_annotation model' n = quantization_annotation m1 n"
    using a by (rule annotate_partitions_frozen)
next
  assume h: "all_flagged model \<and> annotate_all env qs1 model = Inr m2 \<and>
    annotate_all env (qs1 @ qs2) model = Inr model'' \<and>
    quantization_annotation m2 n \<noteq> None"
  then have "all_flagged m2" using annotate_all_all_flagged by blast
  with h have a: "node_annotated m2 n" using all_flagged_annotated by blast
  from h have "annotate_all env qs2 m2 = Inr model''"
    by (auto simp: annotate_all_append)
  then show "quantization_annotation model'' n = quantization_annotation m2 n"
    using a by (rule annotate_all_frozen)
qed

theorem first_match_wins_witness:
  "all_flagged toy_chain \<and>
   \<not> isl (annotate_all toy_env [toy_quantizer Toy_conv] toy_chain) \<and>
   map_option output_qspec (quantization_annotation
     (projr (annotate_all toy_env [toy_quantizer Toy_conv] toy_chain)) 3) =
     Some (Some (Plain act_qspec)) \<and>
   get_anchors toy_env (pattern (toy_quantizer Toy_conv_relu))
       (projr (annotate_all toy_env [toy_quantizer Toy_conv] toy_chain))
       \<lparr>part_nodes = [3, 4], part_output = 4\<rparr> =
     Some \<lparr>inputs = [(3, 0, [])], weights = [(3, 1, [])], biases = [(3, 2, [])],
           output = [(4, [])]\<rparr> \<and>
   annotate_partition toy_env (toy_quantizer Toy_conv_relu)
       \<lparr>part_nodes = [3, 4], part_output = 4\<rparr>
       (projr (annotate_all toy_env [toy_quantizer Toy_conv] toy_chain)) =
     Inr (projr (annotate_all toy_env [toy_quantizer Toy_conv] toy_chain)) \<and>
   \<not> isl (annotate_all toy_env [toy_quantizer Toy_conv, toy_quantizer Toy_conv_relu] toy_chain) \<and>
   quantization_annotation
     (projr (annotate_all toy_env [toy_quantizer Toy_conv, toy_quantizer Toy_conv_relu]
        toy_chain)) 3 =
   quantization_annotation (projr (annotate_all toy_env [toy_quantizer Toy_conv] toy_chain)) 3"
proof -
  let ?fp = "\<lparr>part_nodes = [3, 4], part_output = 4\<rparr>"
  let ?an = "\<lparr>inputs = [(3, 0, [])], weights = [(3, 1, [])], biases = [(3, 2, [])],
           output = [(4, [])]\<rparr>"
  let ?r1 = "annotate_all toy_env [toy_quantizer Toy_conv] toy_chain"
  let ?r2 = "annotate_all toy_env ([toy_quantizer Toy_conv] @ [toy_quantizer Toy_conv_relu])
      toy_chain"
  have f0: "all_flagged toy_chain"
    by (simp add: all_flagged_def entry_flagged_def toy_chain_def)
  have b1: "?r1 = Inr (projr ?r1)" by (simp add: toy_defs chain_defs)
  have b2: "?r2 = Inr (projr ?r2)" by (simp add: toy_defs chain_defs)
  have b4: "quantization_annotation (projr ?r1) 3 \<noteq> None" by (simp add: toy_defs chain_defs)
  have b5: "map_option output_qspec (quantization_annotation (projr ?r1) 3) =
      Some (Some (Plain act_qspec))"
    by (simp add: toy_defs chain_defs)
  have a1: "get_anchors toy_env (pattern (toy_quantizer Toy_conv_relu)) (projr ?r1) ?fp = Some ?an"
    by (simp add: toy_defs chain_defs)
  have a2: "3 \<in> set (anchor_nodes ?an)" by (simp add: anchor_nodes_def)
  note T0 = first_match_wins
    [of toy_chain toy_env _ _ _ 3 _ _ "[toy_quantizer Toy_conv]" "projr ?r1" _ _
        "[toy_quantizer Toy_conv_relu]" "projr ?r2"]
  from T0 f0 b1 have f1: "all_flagged (projr ?r1)" by blast
  from T0 f0 b1 b2 b4 have c2:
    "quantization_annotation (projr ?r2) 3 = quantization_annotation (projr ?r1) 3" by blast
  note T1 = first_match_wins
    [of "projr ?r1" toy_env "toy_quantizer Toy_conv_relu" ?fp ?an 3]
  from T1 f1 a1 a2 b4 have c3:
    "annotate_partition toy_env (toy_quantizer Toy_conv_relu) ?fp (projr ?r1) = Inr (projr ?r1)"
    by blast
  have i1: "\<not> isl ?r1" using b1 by (metis sum.disc(2))
  have i2: "\<not> isl ?r2" using b2 by (metis sum.disc(2))
  from f0 i1 b5 a1 c3 i2 c2 show ?thesis by simp
qed

text \<open>The claim as first stated fails on a graph that enters with an entry whose flag is
  clear: the convolution node enters with a default entry, the convolution/relu annotator
  merges its input specs into that entry and the flag stays clear, and the partition of
  the next annotator, which anchors on the same node, is accepted and gives the node an
  output spec.\<close>

theorem unflagged_entry_second_claim_counterexample:
  "quantization_annotation toy_chain_unflagged 3 =
     Some \<lparr>input_qspec_map = Map.empty, output_qspec = None, annotated = False\<rparr> \<and>
   \<not> isl (annotate_all toy_env [toy_quantizer Toy_conv_relu] toy_chain_unflagged) \<and>
   quantization_annotation
     (projr (annotate_all toy_env [toy_quantizer Toy_conv_relu] toy_chain_unflagged)) 3 =
     Some \<lparr>input_qspec_map = [Arg_node 0 \<mapsto> Some (Plain act_qspec),
                               Arg_node 1 \<mapsto> Some (Plain wgt_qspec), Arg_node 2 \<mapsto> None],
           output_qspec = None, annotated = False\<rparr> \<and>
   get_anchors toy_env Toy_conv
       (projr (annotate_all toy_env [toy_quantizer Toy_conv_relu] toy_chain_unflagged))
       \<lparr>part_nodes = [3], part_output = 3\<rparr> =
     Some \<lparr>inputs = [(3, 0, [])], weights = [(3, 1, [])], biases = [(3, 2, [])],
           output = [(3, [])]\<rparr> \<and>
   annotate_partition toy_env (toy_quantizer Toy_conv) \<lparr>part_nodes = [3], part_output = 3\<rparr>
       (projr (annotate_all toy_env [toy_quantizer Toy_conv_relu] toy_chain_unflagged)) \<noteq>
     Inr (projr (annotate_all toy_env [toy_quantizer Toy_conv_relu] toy_chain_unflagged)) \<and>
   \<not> isl (annotate_all toy_env [toy_quantizer Toy_conv_relu, toy_quantizer Toy_conv]
            toy_chain_unflagged) \<and>
   map_option output_qspec (quantization_annotation
     (projr (annotate_all toy_env [toy_quantizer Toy_conv_relu, toy_quantizer Toy_conv]
        toy_chain_unflagged)) 3) = Some (Some (Plain act_qspec))"
proof -
  let ?r1 = "annotate_all toy_env [toy_quantizer Toy_conv_relu] toy_chain_unflagged"
  let ?fp = "\<lparr>part_nodes = [3], part_output = 3\<rparr>"
  have e1: "quantization_annotation
      (projr (annotate_partition toy_env (toy_quantizer Toy_conv) ?fp (projr ?r1))) 3 \<noteq>
      quantization_annotation (projr ?r1) 3"
    by (simp add: toy_defs chain_defs toy_chain_unflagged_def)
  have ne: "annotate_partition toy_env (toy_quantizer Toy_conv) ?fp (projr ?r1) \<noteq> Inr (projr ?r1)"
  proof
    assume "annotate_partition toy_env (toy_quantizer Toy_conv) ?fp (projr ?r1) = Inr (projr ?r1)"
    then have "quantization_annotation
        (projr (annotate_partition toy_env (toy_quantizer Toy_conv) ?fp (projr ?r1))) 3 =
        quantization_annotation (projr ?r1) 3"
      by simp
    with e1 show False by simp
  qed
  have rest: "quantization_annotation toy_chain_unflagged 3 =
     Some \<lparr>input_qspec_map = Map.empty, output_qspec = None, annotated = False\<rparr> \<and>
   \<not> isl ?r1 \<and>
   quantization_annotation (projr ?r1) 3 =
     Some \<lparr>input_qspec_map = [Arg_node 0 \<mapsto> Some (Plain act_qspec),
                               Arg_node 1 \<mapsto> Some (Plain wgt_qspec), Arg_node 2 \<mapsto> None],
           output_qspec = None, annotated = False\<rparr> \<and>
   get_anchors toy_env Toy_conv (projr ?r1) ?fp =
     Some \<lparr>inputs = [(3, 0, [])], weights = [(3, 1, [])], biases = [(3, 2, [])],
           output = [(3, [])]\<rparr> \<and>
   \<not> isl (annotate_all toy_env [toy_quantizer Toy_conv_relu, toy_quantizer Toy_conv]
            toy_chain_unflagged) \<and>
   map_option output_qspec (quantization_annotation
     (projr (annotate_all toy_env [toy_quantizer Toy_conv_relu, toy_quantizer Toy_conv]
        toy_chain_unflagged)) 3) = Some (Some (Plain act_qspec))"
    by (simp add: toy_defs chain_defs toy_chain_unflagged_def)
  from rest ne show ?thesis by blast
qed

text \<open>
  C3 (as amended). A partition in which a node other than the designated output has a
  consumer outside the partition is skipped without any write and without an error: its
  turn returns the graph unchanged, and the pass over a partition list that contains it
  equals the pass over the list without it. Entries that its nodes receive from another
  partition or annotator, or hold on entry, are not excluded by this.
\<close>

theorem outside_user_partition_is_skipped:
  assumes "n \<in> set (part_nodes fp)" and "n \<noteq> part_output fp"
    and "m \<in> set (nodes model)" and "Arg_node n \<in> set (args model m)"
    and "m \<notin> set (part_nodes fp)"
  shows "annotate_partition env self fp model = Inr model \<and>
         annotate_partitions env self (fps1 @ fp # fps2) model =
           annotate_partitions env self (fps1 @ fps2) model"
proof -
  have "\<not> no_outside_users model fp" using assms by (rule outside_user_fails_check)
  then show ?thesis
    using annotate_partitions_skip [of model fp env self fps1 fps2]
    by (simp add: annotate_partition_def)
qed

theorem outside_user_partition_is_skipped_witness:
  "find_sequential_partitions_aten toy_env toy_graph (partition_types toy_env Toy_conv_relu) =
     [\<lparr>part_nodes = [3, 4], part_output = 4\<rparr>] \<and>
   3 \<in> set [3, 4 :: node] \<and> (3 :: node) \<noteq> 4 \<and> 5 \<in> set (nodes toy_graph) \<and>
   Arg_node 3 \<in> set (args toy_graph 5) \<and> 5 \<notin> set [3, 4 :: node] \<and>
   annotate_partition toy_env (toy_quantizer Toy_conv_relu)
     \<lparr>part_nodes = [3, 4], part_output = 4\<rparr> toy_graph = Inr toy_graph \<and>
   annotate toy_env (toy_quantizer Toy_conv_relu) toy_graph = Inr toy_graph"
proof -
  let ?fp = "\<lparr>part_nodes = [3, 4], part_output = 4\<rparr>"
  have f: "find_sequential_partitions_aten toy_env toy_graph
      (partition_types toy_env (pattern (toy_quantizer Toy_conv_relu))) = [] @ ?fp # []"
    by (simp add: toy_defs)
  have h1: "3 \<in> set (part_nodes ?fp)" by simp
  have h2: "3 \<noteq> part_output ?fp" by simp
  have h3: "5 \<in> set (nodes toy_graph)" by (simp add: toy_graph_def)
  have h4: "Arg_node 3 \<in> set (args toy_graph 5)" by (simp add: toy_graph_def)
  have h5: "5 \<notin> set (part_nodes ?fp)" by simp
  from outside_user_partition_is_skipped
    [OF h1 h2 h3 h4 h5, of toy_env "toy_quantizer Toy_conv_relu" "[]" "[]"]
  have c: "annotate_partition toy_env (toy_quantizer Toy_conv_relu) ?fp toy_graph = Inr toy_graph"
    "annotate_partitions toy_env (toy_quantizer Toy_conv_relu) ([] @ ?fp # []) toy_graph =
       Inr toy_graph"
    by simp_all
  from c(2) f have "annotate toy_env (toy_quantizer Toy_conv_relu) toy_graph = Inr toy_graph"
    unfolding annotate_def by simp
  with c(1) f h3 h4 show ?thesis by (simp add: toy_quantizer_def)
qed

text \<open>A node of a skipped partition can hold an entry after the pass: the convolution is
  annotated by the single-node pattern, and the convolution/relu partition, in which it
  has an outside consumer, is skipped by the next annotator.\<close>

theorem skipped_partition_node_annotated_counterexample:
  "find_sequential_partitions_aten toy_env toy_graph (partition_types toy_env Toy_conv_relu) =
     [\<lparr>part_nodes = [3, 4], part_output = 4\<rparr>] \<and>
   3 \<in> set [3, 4 :: node] \<and> (3 :: node) \<noteq> 4 \<and> 5 \<in> set (nodes toy_graph) \<and>
   Arg_node 3 \<in> set (args toy_graph 5) \<and> 5 \<notin> set [3, 4 :: node] \<and>
   \<not> no_outside_users toy_graph \<lparr>part_nodes = [3, 4], part_output = 4\<rparr> \<and>
   quantization_annotation toy_graph 3 = None \<and>
   \<not> isl (annotate_all toy_env [toy_quantizer Toy_conv, toy_quantizer Toy_conv_relu] toy_graph) \<and>
   quantization_annotation
     (projr (annotate_all toy_env [toy_quantizer Toy_conv, toy_quantizer Toy_conv_relu] toy_graph)) 3
     \<noteq> None"
  by (simp add: toy_defs)

text \<open>
  C4. Two structurally identical graphs (same node count, operator kinds and argument
  wiring, under a one-to-one correspondence of their nodes), carrying corresponding
  annotation entries on entry (none, for one), get corresponding results: both runs raise
  the same error, or both return and the returned graphs are again structurally identical
  with corresponding annotation entries on every node. For one partition's turn this
  holds whenever the pattern hands over corresponding anchors for the two partitions. For
  the aggregate pass the partition finder and the patterns, which are outside the
  annotator, are taken to give corresponding partitions and anchors on corresponding
  graphs.
\<close>

theorem structurally_identical_graphs_same_annotations:
  "(bij \<pi> \<and> structurally_identical \<pi> a b \<and>
    get_anchors env (pattern self) b (rename_partition \<pi> fp) =
      map_option (rename_anchors \<pi>) (get_anchors env (pattern self) a fp) \<longrightarrow>
      rel_sum (=) (structurally_identical \<pi>)
        (annotate_partition env self fp a)
        (annotate_partition env self (rename_partition \<pi> fp) b)) \<and>
   (bij \<pi> \<and> respects_renaming env \<pi> \<and> structurally_identical \<pi> a b \<longrightarrow>
      rel_sum (=) (structurally_identical \<pi>)
        (CadenceQuantizer_annotate env cq a) (CadenceQuantizer_annotate env cq b))"
proof (intro conjI impI)
  assume h: "bij \<pi> \<and> structurally_identical \<pi> a b \<and>
    get_anchors env (pattern self) b (rename_partition \<pi> fp) =
      map_option (rename_anchors \<pi>) (get_anchors env (pattern self) a fp)"
  then have "inj \<pi>" by (simp add: bij_is_inj)
  with h show "rel_sum (=) (structurally_identical \<pi>)
        (annotate_partition env self fp a)
        (annotate_partition env self (rename_partition \<pi> fp) b)"
    by (intro annotate_partition_identical) simp_all
next
  assume h: "bij \<pi> \<and> respects_renaming env \<pi> \<and> structurally_identical \<pi> a b"
  then have "inj \<pi>" by (simp add: bij_is_inj)
  with h show "rel_sum (=) (structurally_identical \<pi>)
        (CadenceQuantizer_annotate env cq a) (CadenceQuantizer_annotate env cq b)"
    unfolding CadenceQuantizer_annotate_def by (intro annotate_all_identical) simp_all
qed

theorem structurally_identical_graphs_same_annotations_witness:
  "bij toy_mirror \<and> respects_renaming toy_env toy_mirror \<and>
   structurally_identical toy_mirror toy_graph toy_graph_mirrored \<and>
   toy_graph_mirrored \<noteq> toy_graph \<and>
   rename_partition toy_mirror \<lparr>part_nodes = [3], part_output = 3\<rparr> =
     \<lparr>part_nodes = [2], part_output = 2\<rparr> \<and>
   rel_sum (=) (structurally_identical toy_mirror)
     (annotate_partition toy_env (toy_quantizer Toy_conv)
        \<lparr>part_nodes = [3], part_output = 3\<rparr> toy_graph)
     (annotate_partition toy_env (toy_quantizer Toy_conv)
        \<lparr>part_nodes = [2], part_output = 2\<rparr> toy_graph_mirrored) \<and>
   (\<exists>a' b' x y.
      CadenceQuantizer_annotate toy_env
        \<lparr>quantizers = [toy_quantizer Toy_conv, toy_quantizer Toy_conv_relu]\<rparr> toy_graph = Inr a' \<and>
      CadenceQuantizer_annotate toy_env
        \<lparr>quantizers = [toy_quantizer Toy_conv, toy_quantizer Toy_conv_relu]\<rparr>
        toy_graph_mirrored = Inr b' \<and>
      structurally_identical toy_mirror a' b' \<and>
      quantization_annotation a' 3 = Some x \<and> quantization_annotation b' 2 = Some y \<and>
      output_qspec x = Some (Plain act_qspec) \<and> output_qspec y = Some (Plain act_qspec) \<and>
      input_qspec_map x (Arg_node 1) = Some (Some (Plain wgt_qspec)) \<and>
      input_qspec_map y (Arg_node 4) = Some (Some (Plain wgt_qspec)))"
proof -
  let ?cq = "\<lparr>quantizers = [toy_quantizer Toy_conv, toy_quantizer Toy_conv_relu]\<rparr>"
  let ?ra = "CadenceQuantizer_annotate toy_env ?cq toy_graph"
  let ?rb = "CadenceQuantizer_annotate toy_env ?cq toy_graph_mirrored"
  let ?fp = "\<lparr>part_nodes = [3], part_output = 3\<rparr>"
  have r: "respects_renaming toy_env toy_mirror"
    using toy_mirror_bij by (intro toy_env_respects_renaming bij_is_inj)
  have d: "toy_graph_mirrored \<noteq> toy_graph"
  proof
    assume "toy_graph_mirrored = toy_graph"
    then have "nodes toy_graph_mirrored = nodes toy_graph" by simp
    then show False by (simp add: toy_graph_def toy_graph_mirrored_def)
  qed
  have rp: "rename_partition toy_mirror ?fp = \<lparr>part_nodes = [2], part_output = 2\<rparr>"
    by (simp add: rename_partition_def toy_mirror_def)
  have ga: "get_anchors toy_env (pattern (toy_quantizer Toy_conv)) toy_graph_mirrored
        (rename_partition toy_mirror ?fp) =
      map_option (rename_anchors toy_mirror)
        (get_anchors toy_env (pattern (toy_quantizer Toy_conv)) toy_graph ?fp)"
    using toy_anchors_renaming [OF toy_graphs_identical] by (simp add: toy_env_def)
  note P = structurally_identical_graphs_same_annotations
    [where \<pi> = toy_mirror and a = toy_graph and b = toy_graph_mirrored and env = toy_env
       and self = "toy_quantizer Toy_conv" and fp = ?fp,
     THEN conjunct1, THEN mp, OF conjI [OF toy_mirror_bij conjI [OF toy_graphs_identical ga]]]
  note Q = structurally_identical_graphs_same_annotations
    [where \<pi> = toy_mirror and a = toy_graph and b = toy_graph_mirrored and env = toy_env
       and cq = ?cq,
     THEN conjunct2, THEN mp, OF conjI [OF toy_mirror_bij conjI [OF r toy_graphs_identical]]]
  have "?ra = Inr (projr ?ra)" by (simp add: toy_defs CadenceQuantizer_annotate_def)
  then obtain a' where ea: "?ra = Inr a'" ..
  have "?rb = Inr (projr ?rb)"
    by (simp add: toy_defs toy_graph_mirrored_def CadenceQuantizer_annotate_def)
  then obtain b' where eb: "?rb = Inr b'" ..
  from Q have si: "structurally_identical toy_mirror a' b'"
    unfolding ea eb by simp
  have "\<exists>x. quantization_annotation (projr ?ra) 3 = Some x \<and>
      output_qspec x = Some (Plain act_qspec) \<and>
      input_qspec_map x (Arg_node 1) = Some (Some (Plain wgt_qspec))"
    by (simp add: toy_defs CadenceQuantizer_annotate_def)
  then obtain x where x: "quantization_annotation a' 3 = Some x"
    "output_qspec x = Some (Plain act_qspec)"
    "input_qspec_map x (Arg_node 1) = Some (Some (Plain wgt_qspec))"
    unfolding ea by auto
  from si have "rel_option (same_annotation toy_mirror)
      (quantization_annotation a' 3) (quantization_annotation b' (toy_mirror 3))"
    by (simp add: structurally_identical_def)
  with x(1) obtain y where y: "quantization_annotation b' 2 = Some y"
    "same_annotation toy_mirror x y"
    by (cases "quantization_annotation b' (toy_mirror 3)")
      (simp_all add: toy_mirror_def)
  from y(2) x(2) have oy: "output_qspec y = Some (Plain act_qspec)"
    by (simp add: same_annotation_def)
  from y(2) have "\<forall>k. input_qspec_map y (rename_arg toy_mirror k) = input_qspec_map x k"
    unfolding same_annotation_def by blast
  then have "input_qspec_map y (rename_arg toy_mirror (Arg_node 1)) =
      input_qspec_map x (Arg_node 1)" ..
  with x(3) have iy: "input_qspec_map y (Arg_node 4) = Some (Some (Plain wgt_qspec))"
    by (simp add: toy_mirror_def)
  from toy_mirror_bij r toy_graphs_identical d rp P [unfolded rp] ea eb si x y(1) oy iy
  show ?thesis by blast
qed

text \<open>
  C5. The default configuration: both activation entries are the histogram-observed,
  static, per-tensor affine uint8 spec with range 0..255; the weight entry is the
  min/max-observed spec with the same range; the bias entry is absent. The default
  quantizer's constructor uses this configuration when it gets none, and the caller's
  configuration, in every annotator, when it gets one.
\<close>

theorem default_qconfig_values:
  "act_qspec =
     \<lparr>dtype = uint8, quant_min = 0, quant_max = 255, qscheme = per_tensor_affine,
      is_dynamic = False,
      observer_or_fake_quant_ctr = HistogramObserver_with_args (1 / 4096)\<rparr> \<and>
   wgt_qspec =
     \<lparr>dtype = uint8, quant_min = 0, quant_max = 255, qscheme = per_tensor_affine,
      is_dynamic = False, observer_or_fake_quant_ctr = MinMaxObserver\<rparr> \<and>
   input_activation default_qconfig = Some act_qspec \<and>
   output_activation default_qconfig = Some act_qspec \<and>
   weight default_qconfig = Some wgt_qspec \<and>
   bias default_qconfig = None \<and>
   bias_qspec = None \<and>
   CadenceDefaultQuantizer_init None =
     CadenceQuantizer_init (get_cadence_default_quantizer_list_with_config default_qconfig) \<and>
   CadenceDefaultQuantizer_init (Some cfg) =
     CadenceQuantizer_init (get_cadence_default_quantizer_list_with_config cfg) \<and>
   map quantization_config (quantizers (CadenceDefaultQuantizer_init (Some cfg))) =
     replicate 9 cfg"
  by (simp add: act_qspec_def wgt_qspec_def default_qconfig_def bias_qspec_def
      CadenceDefaultQuantizer_init_def CadenceQuantizer_init_def
      get_cadence_default_quantizer_list_with_config_def eval_nat_numeral)

text \<open>
  C6. Whenever the annotation pass returns, the graph it returns has the node list, the
  operator kinds, the argument lists and the other metadata of the graph it was given,
  so only annotation entries differ; and it does return when the anchors of the pattern
  name existing argument positions. The same holds for the composed quantizer.
\<close>

theorem annotate_returns_same_graph:
  "(annotate env self model = Inr model' \<longrightarrow>
      nodes model' = nodes model \<and> target model' = target model \<and>
      args model' = args model \<and> meta_other model' = meta_other model) \<and>
   (indices_in_range env (pattern self) \<longrightarrow> (\<exists>m. annotate env self model = Inr m)) \<and>
   (CadenceQuantizer_annotate env cq model = Inr model'' \<longrightarrow>
      nodes model'' = nodes model \<and> target model'' = target model \<and>
      args model'' = args model \<and> meta_other model'' = meta_other model) \<and>
   ((\<forall>q \<in> set (quantizers cq). indices_in_range env (pattern q)) \<longrightarrow>
      (\<exists>m. CadenceQuantizer_annotate env cq model = Inr m))"
proof (intro conjI impI)
  assume "annotate env self model = Inr model'"
  then have s: "same_structure model model'" by (rule annotate_structure)
  from s show "nodes model' = nodes model" by (simp add: same_structure_def)
  from s show "target model' = target model" by (simp add: same_structure_def)
  from s show "args model' = args model" by (simp add: same_structure_def)
  from s show "meta_other model' = meta_other model" by (simp add: same_structure_def)
next
  assume "indices_in_range env (pattern self)"
  then show "\<exists>m. annotate env self model = Inr m" by (rule annotate_returns)
next
  assume "CadenceQuantizer_annotate env cq model = Inr model''"
  then have s: "same_structure model model''"
    unfolding CadenceQuantizer_annotate_def by (rule annotate_all_structure)
  from s show "nodes model'' = nodes model" by (simp add: same_structure_def)
  from s show "target model'' = target model" by (simp add: same_structure_def)
  from s show "args model'' = args model" by (simp add: same_structure_def)
  from s show "meta_other model'' = meta_other model" by (simp add: same_structure_def)
next
  assume "\<forall>q \<in> set (quantizers cq). indices_in_range env (pattern q)"
  then show "\<exists>m. CadenceQuantizer_annotate env cq model = Inr m"
    unfolding CadenceQuantizer_annotate_def by (rule annotate_all_returns)
qed

theorem annotate_returns_same_graph_witness:
  "indices_in_range toy_env (pattern (toy_quantizer Toy_conv)) \<and>
   (\<exists>m. annotate toy_env (toy_quantizer Toy_conv) toy_graph = Inr m \<and>
        nodes m = nodes toy_graph \<and> target m = target toy_graph \<and>
        args m = args toy_graph \<and> meta_other m = meta_other toy_graph \<and>
        quantization_annotation m 3 \<noteq> None) \<and>
   (\<exists>m. CadenceQuantizer_annotate toy_env
          \<lparr>quantizers = [toy_quantizer Toy_conv, toy_quantizer Toy_conv_relu]\<rparr> toy_graph = Inr m \<and>
        nodes m = nodes toy_graph \<and> target m = target toy_graph \<and>
        args m = args toy_graph \<and> meta_other m = meta_other toy_graph)"
proof -
  let ?cq = "\<lparr>quantizers = [toy_quantizer Toy_conv, toy_quantizer Toy_conv_relu]\<rparr>"
  let ?r1 = "annotate toy_env (toy_quantizer Toy_conv) toy_graph"
  let ?r2 = "CadenceQuantizer_annotate toy_env ?cq toy_graph"
  have h: "indices_in_range toy_env (pattern (toy_quantizer Toy_conv))"
    by (rule toy_indices_in_range)
  have hq: "\<forall>q \<in> set (quantizers ?cq). indices_in_range toy_env (pattern q)"
    by (simp add: toy_indices_in_range)
  have a: "quantization_annotation (projr ?r1) 3 \<noteq> None"
    by (simp add: toy_defs)
  note T = annotate_returns_same_graph
    [of toy_env "toy_quantizer Toy_conv" toy_graph "projr ?r1" ?cq "projr ?r2"]
  from T h obtain m1 where m1: "?r1 = Inr m1" by blast
  from T hq obtain m2 where m2: "?r2 = Inr m2" by blast
  from T m1 m2 h a show ?thesis by simp
qed

text \<open>
  C7. In an accepted partition whose pattern names a node both in the output bucket and
  in one of the inputs, weights or biases buckets, that node ends the partition's turn
  with one entry that has the flag set, holds the output spec chosen for one of its
  output anchors, and binds the input edge to the spec chosen for an anchor of that
  edge; both are specs proper (not None) when the chosen ones are. The witness is a run
  of the annotator on a graph where this happens.
\<close>

theorem output_anchor_also_gets_input_specs:
  assumes "no_outside_users model fp"
    and "get_anchors env (pattern self) model fp = Some anchors"
    and "\<not> is_annotated model (anchor_nodes anchors)"
    and "anchors_in_range model anchors"
    and "(n, cs) \<in> set (output anchors)"
    and "\<forall>c. (n, c) \<in> set (output anchors) \<longrightarrow>
           choose_spec c (map_option Plain (output_activation (quantization_config self))) \<noteq> None"
    and "(n, idx, v) \<in> set (chosen_specs (quantization_config self) anchors)"
    and "\<forall>idx' v'. (n, idx', v') \<in> set (chosen_specs (quantization_config self) anchors) \<longrightarrow>
           getitem (args model n) idx' = getitem (args model n) idx \<longrightarrow> v' \<noteq> None"
  shows "\<exists>model' a' c k idx' s.
           annotate_partition env self fp model = Inr model' \<and>
           quantization_annotation model' n = Some a' \<and> annotated a' \<and>
           (n, c) \<in> set (output anchors) \<and>
           output_qspec a' =
             choose_spec c (map_option Plain (output_activation (quantization_config self))) \<and>
           output_qspec a' \<noteq> None \<and>
           getitem (args model n) idx = Inr k \<and>
           (n, idx', Some s) \<in> set (chosen_specs (quantization_config self) anchors) \<and>
           getitem (args model n) idx' = Inr k \<and>
           input_qspec_map a' k = Some (Some s)"
proof -
  let ?cfg = "quantization_config self"
  let ?m0 = "annotate_outputs (output anchors) (map_option Plain (output_activation ?cfg)) model"
  have step: "annotate_partition env self fp model = assign_specs ?cfg anchors model"
    using assms(1-3) by (rule accepted_partition)
  from assign_specs_returns [OF assms(4)] obtain model' where
    run: "assign_specs ?cfg anchors model = Inr model'" by blast
  from annotate_outputs_fresh [OF assms(5)] obtain c where c: "(n, c) \<in> set (output anchors)"
    and a0: "quantization_annotation ?m0 n =
      Some \<lparr>input_qspec_map = Map.empty,
            output_qspec = choose_spec c (map_option Plain (output_activation ?cfg)),
            annotated = True\<rparr>"
    by blast
  from assign_specs_after_outputs [OF run a0] obtain a' where a':
    "quantization_annotation model' n = Some a'"
    "output_qspec a' = choose_spec c (map_option Plain (output_activation ?cfg))"
    "annotated a'"
    by auto
  from assms(7) obtain cs0 where
    "(n, idx, cs0) \<in> set (inputs anchors @ weights anchors @ biases anchors)"
    by (auto simp: chosen_specs_def bucket_writes_iff)
  with assms(4) have "index_ok (args model n) idx"
    unfolding anchors_in_range_def list_all_iff by fastforce
  then obtain k where k: "getitem (args model n) idx = Inr k"
    using getitem_returns by blast
  from assign_specs_rebound [OF run assms(7) k] obtain idx' v' a'' where r:
    "(n, idx', v') \<in> set (chosen_specs ?cfg anchors)" "getitem (args model n) idx' = Inr k"
    "quantization_annotation model' n = Some a''" "input_qspec_map a'' k = Some v'"
    by blast
  from r(1,2) k assms(8) have "v' \<noteq> None" by auto
  then obtain s where s: "v' = Some s" by auto
  from r(3) a'(1) have "a'' = a'" by simp
  with r s a' c k assms(6) step run show ?thesis by auto
qed

theorem output_anchor_also_gets_input_specs_witness:
  "no_outside_users toy_graph \<lparr>part_nodes = [3], part_output = 3\<rparr> \<and>
   quantization_annotation toy_graph 3 = None \<and>
   getitem (args toy_graph 3) 0 = Inr (Arg_node 0) \<and>
   (\<exists>model' a'. annotate toy_env (toy_quantizer Toy_conv) toy_graph = Inr model' \<and>
        quantization_annotation model' 3 = Some a' \<and> annotated a' \<and>
        output_qspec a' = Some (Plain act_qspec) \<and>
        input_qspec_map a' (Arg_node 0) = Some (Some (Plain act_qspec)))"
proof -
  let ?fp = "\<lparr>part_nodes = [3], part_output = 3\<rparr>"
  let ?an = "\<lparr>inputs = [(3, 0, [])], weights = [(3, 1, [])],
        biases = [(3, 2, [])], output = [(3, [])]\<rparr>"
  let ?q = "toy_quantizer Toy_conv"
  have h1: "no_outside_users toy_graph ?fp" by (simp add: toy_defs)
  have h2: "get_anchors toy_env (pattern ?q) toy_graph ?fp = Some ?an"
    by (simp add: toy_defs)
  have h3: "\<not> is_annotated toy_graph (anchor_nodes ?an)" by (simp add: toy_defs)
  have h4: "anchors_in_range toy_graph ?an"
    by (simp add: anchors_in_range_def index_ok_def toy_graph_def)
  have h5: "(3, []) \<in> set (output ?an)" by simp
  have h6: "\<forall>c. (3, c) \<in> set (output ?an) \<longrightarrow>
      choose_spec c (map_option Plain (output_activation (quantization_config ?q))) \<noteq> None"
    by (simp add: toy_defs)
  have cs: "chosen_specs (quantization_config ?q) ?an =
      [(3, 0, Some (Plain act_qspec)), (3, 1, Some (Plain wgt_qspec)), (3, 2, None)]"
    by (simp add: chosen_specs_def bucket_writes_def toy_defs)
  have h7: "(3, 0, Some (Plain act_qspec)) \<in> set (chosen_specs (quantization_config ?q) ?an)"
    unfolding cs by simp
  have h8: "\<forall>idx' v'. (3, idx', v') \<in> set (chosen_specs (quantization_config ?q) ?an) \<longrightarrow>
      getitem (args toy_graph 3) idx' = getitem (args toy_graph 3) 0 \<longrightarrow> v' \<noteq> None"
    unfolding cs by (auto simp: toy_defs)
  have k: "getitem (args toy_graph 3) 0 = Inr (Arg_node 0)" by (simp add: toy_defs)
  have q: "quantization_annotation toy_graph 3 = None" by (simp add: toy_defs)
  have run: "annotate toy_env ?q toy_graph = annotate_partition toy_env ?q ?fp toy_graph"
    unfolding annotate_def toy_quantizer_def CadenceAtenQuantizer.simps toy_conv_partitions
    by (simp split: sum.splits)
  from output_anchor_also_gets_input_specs [OF h1 h2 h3 h4 h5 h6 h7 h8]
  obtain model' a' c idx' s where r:
    "annotate_partition toy_env ?q ?fp toy_graph = Inr model'"
    "quantization_annotation model' 3 = Some a'" "annotated a'"
    "(3, c) \<in> set (output ?an)"
    "output_qspec a' = choose_spec c (map_option Plain (output_activation (quantization_config ?q)))"
    "(3, idx', Some s) \<in> set (chosen_specs (quantization_config ?q) ?an)"
    "getitem (args toy_graph 3) idx' = Inr (Arg_node 0)"
    "input_qspec_map a' (Arg_node 0) = Some (Some s)"
    unfolding k by auto
  from r(4,5) have o: "output_qspec a' = Some (Plain act_qspec)" by (simp add: toy_defs)
  from r(6,7) have "s = Plain act_qspec" unfolding cs by (auto simp: toy_defs)
  with r o h1 q k run show ?thesis by auto
qed

text \<open>
  C8. The validation hook returns normally and hands back the model unchanged, for every
  quantizer and every model; the operator-support declaration is the empty list.
\<close>

theorem validate_is_noop:
  "validate self model = Inr model \<and> get_supported_operators = []"
  by (simp add: validate_def get_supported_operators_def)

text \<open>
  C9. The default list holds nine annotators, for the patterns Addmm, Bmm, Conv1d, Conv2d,
  LayerNorm, Linear, Matmul, ReluPattern0, ReluPattern1 in this order, each with the
  configuration that was passed in; the aggregate pass runs the Addmm annotator first and
  the remaining eight on the graph it leaves.
\<close>

theorem default_quantizer_list_order:
  "map pattern (get_cadence_default_quantizer_list_with_config cfg) =
     [AddmmPattern, BmmPattern, Conv1dPattern, Conv2dPattern, LayerNormPattern,
      LinearPattern, MatmulPattern, ReluPattern0, ReluPattern1] \<and>
   map quantization_config (get_cadence_default_quantizer_list_with_config cfg) =
     replicate 9 cfg \<and>
   annotate_all env (get_cadence_default_quantizer_list_with_config cfg) model =
     (case annotate env \<lparr>pattern = AddmmPattern, quantization_config = cfg\<rparr> model of
        Inl e \<Rightarrow> Inl e
      | Inr model' \<Rightarrow>
          annotate_all env
            (map (\<lambda>p. \<lparr>pattern = p, quantization_config = cfg\<rparr>)
               [BmmPattern, Conv1dPattern, Conv2dPattern, LayerNormPattern,
                LinearPattern, MatmulPattern, ReluPattern0, ReluPattern1]) model')"
  by (simp add: get_cadence_default_quantizer_list_with_config_def eval_nat_numeral
      split: sum.splits)

text \<open>
  C10. With no bias spec in the configuration, a bias anchor without a custom spec ends
  the turn of its accepted partition with its edge present in the node's input map and
  bound to None (\<open>Some None\<close>), not missing from the map, provided no other bias
  anchor of that edge carries a custom spec.
\<close>

theorem absent_bias_spec_is_bound_to_None:
  assumes "bias (quantization_config self) = None"
    and "no_outside_users model fp"
    and "get_anchors env (pattern self) model fp = Some anchors"
    and "\<not> is_annotated model (anchor_nodes anchors)"
    and "anchors_in_range model anchors"
    and "(n, idx, []) \<in> set (biases anchors)"
    and "\<forall>idx' cs'. (n, idx', cs') \<in> set (biases anchors) \<longrightarrow>
           getitem (args model n) idx' = getitem (args model n) idx \<longrightarrow> cs' = []"
  shows "\<exists>model' a' k. annotate_partition env self fp model = Inr model' \<and>
           getitem (args model n) idx = Inr k \<and>
           quantization_annotation model' n = Some a' \<and>
           input_qspec_map a' k = Some None"
proof -
  let ?cfg = "quantization_config self"
  have step: "annotate_partition env self fp model = assign_specs ?cfg anchors model"
    using assms(2-4) by (rule accepted_partition)
  from assign_specs_returns [OF assms(5)] obtain model' where
    run: "assign_specs ?cfg anchors model = Inr model'" by blast
  from run obtain m1 m2 where
    s1: "annotate_inputs (inputs anchors) (map_option Plain (input_activation ?cfg))
       (annotate_outputs (output anchors) (map_option Plain (output_activation ?cfg)) model) = Inr m1" and
    s2: "annotate_inputs (weights anchors) (map_option Plain (weight ?cfg)) m1 = Inr m2" and
    s3: "annotate_inputs (biases anchors) (map_option Plain (bias ?cfg)) m2 = Inr model'"
    by (rule assign_specs_steps)
  have args2: "args m2 = args model"
    using s1 s2 by (simp add: annotate_inputs_args)
  from annotate_inputs_index [OF s3 assms(6)] obtain k where
    k: "getitem (args model n) idx = Inr k" unfolding args2 by blast
  have uni: "\<forall>idx' cs'. (n, idx', cs') \<in> set (biases anchors) \<longrightarrow>
      getitem (args m2 n) idx' = Inr k \<longrightarrow>
      choose_spec cs' (map_option Plain (bias ?cfg)) = None"
  proof (intro allI impI)
    fix idx' cs'
    assume m: "(n, idx', cs') \<in> set (biases anchors)"
      and g: "getitem (args m2 n) idx' = Inr k"
    from g k have "getitem (args model n) idx' = getitem (args model n) idx"
      unfolding args2 by simp
    with assms(7) m have "cs' = []" by blast
    then show "choose_spec cs' (map_option Plain (bias ?cfg)) = None"
      using assms(1) by (simp add: choose_spec_def)
  qed
  from annotate_inputs_binding [OF s3 assms(6) _ uni] k obtain a' where
    "quantization_annotation model' n = Some a'" "input_qspec_map a' k = Some None"
    unfolding args2 by blast
  with step run k show ?thesis by auto
qed

theorem absent_bias_spec_is_bound_to_None_witness:
  "bias (quantization_config (toy_quantizer Toy_conv)) = None \<and>
   no_outside_users toy_graph \<lparr>part_nodes = [3], part_output = 3\<rparr> \<and>
   (3, 2, []) \<in> set (biases \<lparr>inputs = [(3, 0, [])], weights = [(3, 1, [])],
        biases = [(3, 2, [])], output = [(3, [])]\<rparr>) \<and>
   (\<exists>model' a'. annotate_partition toy_env (toy_quantizer Toy_conv)
          \<lparr>part_nodes = [3], part_output = 3\<rparr> toy_graph = Inr model' \<and>
        getitem (args toy_graph 3) 2 = Inr (Arg_node 2) \<and>
        quantization_annotation model' 3 = Some a' \<and>
        input_qspec_map a' (Arg_node 2) = Some None)"
proof -
  let ?fp = "\<lparr>part_nodes = [3], part_output = 3\<rparr>"
  let ?an = "\<lparr>inputs = [(3, 0, [])], weights = [(3, 1, [])],
        biases = [(3, 2, [])], output = [(3, [])]\<rparr>"
  have h1: "bias (quantization_config (toy_quantizer Toy_conv)) = None"
    by (simp add: toy_defs)
  have h2: "no_outside_users toy_graph ?fp" by (simp add: toy_defs)
  have h3: "get_anchors toy_env (pattern (toy_quantizer Toy_conv)) toy_graph ?fp = Some ?an"
    by (simp add: toy_defs)
  have h4: "\<not> is_annotated toy_graph (anchor_nodes ?an)" by (simp add: toy_defs)
  have h5: "anchors_in_range toy_graph ?an"
    by (simp add: anchors_in_range_def index_ok_def toy_graph_def)
  have h6: "(3, 2, []) \<in> set (biases ?an)" by simp
  have h7: "\<forall>idx' cs'. (3, idx', cs') \<in> set (biases ?an) \<longrightarrow>
      getitem (args toy_graph 3) idx' = getitem (args toy_graph 3) 2 \<longrightarrow> cs' = []"
    by simp
  have k: "getitem (args toy_graph 3) 2 = Inr (Arg_node 2)" by (simp add: toy_defs)
  from absent_bias_spec_is_bound_to_None [OF h1 h2 h3 h4 h5 h6 h7] k h1 h2 h6
  show ?thesis by auto
qed

end
